theory Spec2Isabelle
  imports Main "HOL-Library.AList"
begin

section \<open>Data model of \<^verbatim>\<open>src/fetcher/main_v3.py\<close>\<close>

text \<open>
  The archiver keeps one \<^verbatim>\<open>CacheState\<close> in memory, talks to a remote server through
  \<^verbatim>\<open>_make_request\<close>, writes payload files below \<^verbatim>\<open>/data/downloads/raw\<close> and
  persists the cache as a JSON document.  The embedding passes the whole of that
  as an explicit \<open>world\<close> value.  Python strings and byte strings are \<open>string\<close>,
  Python integers are \<open>int\<close>, the insertion-ordered dictionary \<^verbatim>\<open>files\<close> is an
  association list (lookup \<open>map_of\<close>, assignment \<open>AList.update\<close>, which replaces
  the value of a known key in place and appends an unknown key at the end).

  Not modelled: logging, sleeping, the per-dataset report files written by
  \<^verbatim>\<open>_save_dataset_metadata\<close> and \<^verbatim>\<open>_save_final_summary\<close> (write-only, never read
  back), and failures of the local file system other than the ones spelled out
  below.  Every \<^verbatim>\<open>datetime.now().isoformat()\<close> of one operation is the parameter
  \<open>now\<close>.
\<close>

datatype DownloadStatus = PENDING | SUCCESS | FAILED | SKIPPED

record FileMetadata =
  url :: string
  filename :: string
  dataset :: int
  discovered_at :: string
  last_checked :: "string option"
  status :: DownloadStatus
  download_path :: "string option"
  file_size :: "int option"
  checksum :: "string option"
  download_attempts :: int
  last_error :: "string option"
  downloaded_at :: "string option"

text \<open>\<^verbatim>\<open>FileMetadata(url=..., filename=..., dataset=..., discovered_at=...)\<close> with the
  dataclass defaults for the other fields.\<close>

definition new_FileMetadata :: "string \<Rightarrow> string \<Rightarrow> int \<Rightarrow> string \<Rightarrow> FileMetadata" where
  "new_FileMetadata u fname d now =
     \<lparr>url = u, filename = fname, dataset = d, discovered_at = now,
      last_checked = None, status = PENDING, download_path = None,
      file_size = None, checksum = None, download_attempts = 0,
      last_error = None, downloaded_at = None\<rparr>"

record CacheState =
  version :: string
  created_at :: "string option"
  last_updated :: "string option"
  files :: "(string \<times> FileMetadata) list"
  datasets_scanned :: "int set"
  max_dataset_found :: int
  total_discovered :: int
  total_downloaded :: int
  total_failed :: int
  total_skipped :: int

text \<open>\<^verbatim>\<open>CacheState()\<close>: the dataclass defaults.  The two time stamps are
  \<open>string option\<close> because \<^verbatim>\<open>CacheState.from_dict\<close> can leave \<^verbatim>\<open>None\<close> in them.\<close>

definition new_CacheState :: "string \<Rightarrow> CacheState" where
  "new_CacheState now =
     \<lparr>version = ''2.0'', created_at = Some now, last_updated = Some now, files = [],
      datasets_scanned = {}, max_dataset_found = 0, total_discovered = 0,
      total_downloaded = 0, total_failed = 0, total_skipped = 0\<rparr>"

text \<open>
  A JSON document as \<^verbatim>\<open>json.load\<close> reads it: \<^verbatim>\<open>null\<close>, a truth value, a number
  without fraction or exponent (a Python \<^verbatim>\<open>int\<close>), any other number (a Python
  \<^verbatim>\<open>float\<close>, kept as its text), a string, an array, and an object with its
  members in the order of the text.
\<close>

datatype json =
  JNull | JBool bool | JInt int | JFloat string | JStr string
| JList "json list" | JObj "(string \<times> json) list"

text \<open>
  What \<^verbatim>\<open>archive_cache.json\<close> can hold: \<open>Json j\<close> is the text of the document \<open>j\<close>,
  whatever its shape; \<open>Unparseable\<close> is any content that is not the text of a
  JSON document, on which \<^verbatim>\<open>json.load\<close> raises \<^verbatim>\<open>JSONDecodeError\<close> (an empty file,
  a file cut off in the middle of a document).
\<close>

datatype disk_content = Json json | Unparseable

text \<open>The exceptions that reading the cache can raise; all of them are
  subclasses of \<^verbatim>\<open>Exception\<close>.\<close>

datatype exn = JSONDecodeError | AttributeError | TypeError | KeyError | ValueError

text \<open>
  What a Python expression that builds a value of a declared type does: it
  raises, or it returns a value of that type, or it returns a value that is not
  of that type (the dataclasses check no types, so \<^verbatim>\<open>from_dict\<close> stores whatever
  the document holds).  The records of this theory have the field types that the
  dataclasses declare, so a state of the third kind has no counterpart here:
  \<open>IllTyped\<close> says that the code returns one, and the embedding does not follow
  the program further from there.
\<close>

datatype 'a outcome = Raises exn | IllTyped | Returns 'a

text \<open>
  What \<^verbatim>\<open>session.request\<close> does for one URL: it returns a response (status code,
  body, and whether reading the body as a stream raises part-way, with the
  exception text), or raises \<^verbatim>\<open>requests.exceptions.Timeout\<close>, or raises another
  exception.
\<close>

record response =
  status_code :: int
  content :: string
  stream_error :: "string option"

datatype http_result = Replied response | TimeoutExc | OtherExc string

type_synonym server = "string \<Rightarrow> http_result"

record world =
  cache :: CacheState
  fs :: "string \<rightharpoonup> string"
  cache_file :: "disk_content option"
  backup_cache_file :: "disk_content option"
  requests :: "string list"
  stdout :: "string list"

section \<open>Formatting, URLs and paths\<close>

fun digits :: "nat \<Rightarrow> string" where
  "digits n = (if n < 10 then [''0123456789'' ! n]
               else digits (n div 10) @ [''0123456789'' ! (n mod 10)])"

declare digits.simps [simp del]

text \<open>\<^verbatim>\<open>f"{n}"\<close> for a Python integer.\<close>

definition str_int :: "int \<Rightarrow> string" where
  "str_int i = (if i < 0 then CHR ''-'' # digits (nat (- i)) else digits (nat i))"

definition base_url :: string where
  "base_url = ''https://www.justice.gov''"

definition dataset_url :: "int \<Rightarrow> string" where
  "dataset_url d = base_url @ ''/epstein/doj-disclosures/data-set-'' @ str_int d @ ''-files''"

definition page_url :: "int \<Rightarrow> int \<Rightarrow> string" where
  "page_url d p = (if p = 0 then dataset_url d
                   else dataset_url d @ ''?page='' @ str_int p)"

text \<open>\<^verbatim>\<open>Path / name\<close>: an absolute right operand replaces the left one.\<close>

definition path_join :: "string \<Rightarrow> string \<Rightarrow> string" where
  "path_join dir name = (if take 1 name = ''/'' then name else dir @ ''/'' @ name)"

definition get_dataset_dir :: "int \<Rightarrow> string" where
  "get_dataset_dir d = ''/data/downloads/raw/dataset'' @ str_int d"

section \<open>Cache store\<close>

text \<open>
  The dictionary that \<^verbatim>\<open>json.load\<close> makes of an object: a member name that occurs
  again replaces the value and keeps the place of the first occurrence.
\<close>

definition py_dict :: "(string \<times> json) list \<Rightarrow> (string \<times> json) list" where
  "py_dict kvs = fold (\<lambda>(k, v). AList.update k v) kvs []"

text \<open>\<^verbatim>\<open>d.get(k, default)\<close>.\<close>

definition dict_get :: "(string \<times> json) list \<Rightarrow> string \<Rightarrow> json \<Rightarrow> json" where
  "dict_get d k dflt = (case map_of d k of None \<Rightarrow> dflt | Some v \<Rightarrow> v)"

text \<open>
  A function applied to an argument, both evaluated from left to right: the
  first exception is the result; without an exception, one ill-typed part makes
  the whole ill-typed.
\<close>

definition ap :: "('a \<Rightarrow> 'b) outcome \<Rightarrow> 'a outcome \<Rightarrow> 'b outcome" where
  "ap f x =
     (case f of
        Raises e \<Rightarrow> Raises e
      | IllTyped \<Rightarrow> (case x of Raises e \<Rightarrow> Raises e | _ \<Rightarrow> IllTyped)
      | Returns g \<Rightarrow> (case x of
                        Raises e \<Rightarrow> Raises e
                      | IllTyped \<Rightarrow> IllTyped
                      | Returns a \<Rightarrow> Returns (g a)))"

text \<open>A value of the document stored in a field declared \<^verbatim>\<open>str\<close>, \<^verbatim>\<open>int\<close>,
  \<^verbatim>\<open>Optional[str]\<close>, \<^verbatim>\<open>Optional[int]\<close>: nothing is checked and nothing raises.
  (A truth value, which Python takes for an \<^verbatim>\<open>int\<close>, counts as ill-typed here.)\<close>

definition as_str :: "json \<Rightarrow> string outcome" where
  "as_str v = (case v of JStr s \<Rightarrow> Returns s | _ \<Rightarrow> IllTyped)"

definition as_int :: "json \<Rightarrow> int outcome" where
  "as_int v = (case v of JInt i \<Rightarrow> Returns i | _ \<Rightarrow> IllTyped)"

definition as_opt_str :: "json \<Rightarrow> string option outcome" where
  "as_opt_str v = (case v of JNull \<Rightarrow> Returns None | JStr s \<Rightarrow> Returns (Some s) | _ \<Rightarrow> IllTyped)"

definition as_opt_int :: "json \<Rightarrow> int option outcome" where
  "as_opt_int v = (case v of JNull \<Rightarrow> Returns None | JInt i \<Rightarrow> Returns (Some i) | _ \<Rightarrow> IllTyped)"

text \<open>\<^verbatim>\<open>DownloadStatus(value)\<close>: the member with that value, \<^verbatim>\<open>ValueError\<close> when
  there is none.\<close>

definition DownloadStatus_of :: "json \<Rightarrow> DownloadStatus outcome" where
  "DownloadStatus_of v =
     (if v = JStr ''pending'' then Returns PENDING
      else if v = JStr ''success'' then Returns SUCCESS
      else if v = JStr ''failed'' then Returns FAILED
      else if v = JStr ''skipped'' then Returns SKIPPED
      else Raises ValueError)"

definition field_names :: "string list" where
  "field_names =
     [''url'', ''filename'', ''dataset'', ''discovered_at'', ''last_checked'', ''status'',
      ''download_path'', ''file_size'', ''checksum'', ''download_attempts'', ''last_error'',
      ''downloaded_at'']"

text \<open>
  \<^verbatim>\<open>FileMetadata.from_dict\<close>.  \<^verbatim>\<open>data['status']\<close> raises \<^verbatim>\<open>TypeError\<close> when \<^verbatim>\<open>data\<close>
  is no dictionary and \<^verbatim>\<open>KeyError\<close> when it has no such member;
  \<^verbatim>\<open>cls(**data)\<close> raises \<^verbatim>\<open>TypeError\<close> for a member that is no field and for a
  missing field that has no default.
\<close>

definition FileMetadata_from_dict :: "json \<Rightarrow> FileMetadata outcome" where
  "FileMetadata_from_dict data =
     (case data of
        JObj kvs \<Rightarrow>
          (let d = py_dict kvs
           in case map_of d ''status'' of
                None \<Rightarrow> Raises KeyError
              | Some v \<Rightarrow>
                  (case DownloadStatus_of v of
                     Raises e \<Rightarrow> Raises e
                   | IllTyped \<Rightarrow> IllTyped
                   | Returns st \<Rightarrow>
                       if \<not> list_all (\<lambda>k. k \<in> set field_names) (map fst d) then Raises TypeError
                       else if \<not> list_all (\<lambda>k. k \<in> set (map fst d))
                                   [''url'', ''filename'', ''dataset'', ''discovered_at'']
                       then Raises TypeError
                       else
                         ap (ap (ap (ap (ap (ap (ap (ap (ap (ap (ap
                           (Returns (\<lambda>u fname ds da lc dp fsize cs att le dat.
                              \<lparr>url = u, filename = fname, dataset = ds, discovered_at = da,
                               last_checked = lc, status = st, download_path = dp,
                               file_size = fsize, checksum = cs, download_attempts = att,
                               last_error = le, downloaded_at = dat\<rparr>))
                           (as_str (dict_get d ''url'' JNull)))
                           (as_str (dict_get d ''filename'' JNull)))
                           (as_int (dict_get d ''dataset'' JNull)))
                           (as_str (dict_get d ''discovered_at'' JNull)))
                           (as_opt_str (dict_get d ''last_checked'' JNull)))
                           (as_opt_str (dict_get d ''download_path'' JNull)))
                           (as_opt_int (dict_get d ''file_size'' JNull)))
                           (as_opt_str (dict_get d ''checksum'' JNull)))
                           (as_int (dict_get d ''download_attempts'' (JInt 0))))
                           (as_opt_str (dict_get d ''last_error'' JNull)))
                           (as_opt_str (dict_get d ''downloaded_at'' JNull))))
      | _ \<Rightarrow> Raises TypeError)"

text \<open>The dictionary comprehension of \<^verbatim>\<open>CacheState.from_dict\<close> over the items of
  \<^verbatim>\<open>files\<close>, in their order.\<close>

fun files_from_items :: "(string \<times> json) list \<Rightarrow> (string \<times> FileMetadata) list outcome" where
  "files_from_items [] = Returns []"
| "files_from_items ((u, meta) # rest) =
     ap (ap (Returns (\<lambda>fm fl. (u, fm) # fl)) (FileMetadata_from_dict meta))
        (files_from_items rest)"

text \<open>
  \<^verbatim>\<open>set(value)\<close> for the field declared \<^verbatim>\<open>Set[int]\<close>: \<^verbatim>\<open>TypeError\<close> for a value that
  cannot be iterated and for an array with an element that cannot be hashed (an
  array or an object); a string gives the set of its characters and an object
  the set of its member names.
\<close>

definition is_hashable :: "json \<Rightarrow> bool" where
  "is_hashable v = (case v of JList xs \<Rightarrow> False | JObj kvs \<Rightarrow> False | _ \<Rightarrow> True)"

definition set_of_json :: "json \<Rightarrow> int set outcome" where
  "set_of_json v =
     (case v of
        JList xs \<Rightarrow>
          if \<not> list_all is_hashable xs then Raises TypeError
          else fold (\<lambda>x acc. ap (ap (Returns insert) (as_int x)) acc) xs (Returns {})
      | JStr s \<Rightarrow> if s = [] then Returns {} else IllTyped
      | JObj kvs \<Rightarrow> if kvs = [] then Returns {} else IllTyped
      | _ \<Rightarrow> Raises TypeError)"

text \<open>
  \<^verbatim>\<open>CacheState.from_dict\<close>.  \<^verbatim>\<open>data.get\<close> raises \<^verbatim>\<open>AttributeError\<close> when \<^verbatim>\<open>data\<close> is
  no dictionary, and so does \<^verbatim>\<open>.items()\<close> when \<^verbatim>\<open>files\<close> is none.  \<^verbatim>\<open>version\<close>,
  the collections and the counters have a default; \<^verbatim>\<open>created_at\<close> and
  \<^verbatim>\<open>last_updated\<close> are read with \<^verbatim>\<open>data.get\<close> without one, so a document that
  lacks them gives \<^verbatim>\<open>None\<close>.
\<close>

definition CacheState_from_dict :: "json \<Rightarrow> CacheState outcome" where
  "CacheState_from_dict data =
     (case data of
        JObj kvs \<Rightarrow>
          (let d = py_dict kvs
           in case dict_get d ''files'' (JObj []) of
                JObj fkvs \<Rightarrow>
                  ap (ap (ap (ap (ap (ap (ap (ap (ap (ap
                    (Returns (\<lambda>fl sc v ca lu mx td tdl tf ts.
                       \<lparr>version = v, created_at = ca, last_updated = lu, files = fl,
                        datasets_scanned = sc, max_dataset_found = mx, total_discovered = td,
                        total_downloaded = tdl, total_failed = tf, total_skipped = ts\<rparr>))
                    (files_from_items (py_dict fkvs)))
                    (set_of_json (dict_get d ''datasets_scanned'' (JList []))))
                    (as_str (dict_get d ''version'' (JStr ''2.0''))))
                    (as_opt_str (dict_get d ''created_at'' JNull)))
                    (as_opt_str (dict_get d ''last_updated'' JNull)))
                    (as_int (dict_get d ''max_dataset_found'' (JInt 0))))
                    (as_int (dict_get d ''total_discovered'' (JInt 0))))
                    (as_int (dict_get d ''total_downloaded'' (JInt 0))))
                    (as_int (dict_get d ''total_failed'' (JInt 0))))
                    (as_int (dict_get d ''total_skipped'' (JInt 0)))
              | _ \<Rightarrow> Raises AttributeError)
      | _ \<Rightarrow> Raises AttributeError)"

text \<open>\<^verbatim>\<open>json.load\<close> on the content of the cache file.\<close>

definition json_load :: "disk_content \<Rightarrow> json outcome" where
  "json_load d = (case d of Json j \<Rightarrow> Returns j | Unparseable \<Rightarrow> Raises JSONDecodeError)"

text \<open>The \<^verbatim>\<open>try\<close> block of \<^verbatim>\<open>_load_cache\<close>.\<close>

definition read_cache :: "disk_content \<Rightarrow> CacheState outcome" where
  "read_cache d =
     (case json_load d of
        Raises e \<Rightarrow> Raises e
      | IllTyped \<Rightarrow> IllTyped
      | Returns data \<Rightarrow> CacheState_from_dict data)"

text \<open>
  \<^verbatim>\<open>_load_cache\<close>: a fresh state when there is no cache file; otherwise the
  \<^verbatim>\<open>try\<close> block, whose every exception \<^verbatim>\<open>except Exception\<close> turns into a fresh
  state, and whose result is returned as it is.
\<close>

definition load_cache :: "string \<Rightarrow> disk_content option \<Rightarrow> CacheState outcome" where
  "load_cache now f =
     (case f of
        None \<Rightarrow> Returns (new_CacheState now)
      | Some d \<Rightarrow> (case read_cache d of
                    Raises e \<Rightarrow> Returns (new_CacheState now)
                  | IllTyped \<Rightarrow> IllTyped
                  | Returns c \<Rightarrow> Returns c))"

text \<open>
  \<^verbatim>\<open>json.dump(self.cache.to_serializable(), f, ...)\<close> on the cache file opened for
  writing.  \<^verbatim>\<open>to_serializable\<close> leaves the \<^verbatim>\<open>status\<close> of every file record a
  member of the plain \<^verbatim>\<open>Enum\<close> \<^verbatim>\<open>DownloadStatus\<close>, and \<^verbatim>\<open>json.dump\<close> is called
  without a \<^verbatim>\<open>default\<close>: with at least one file record it raises \<^verbatim>\<open>TypeError\<close>
  after the file has been emptied and partly written.  Without a file record
  the document has the ten fields in the order of the dataclass, a time stamp
  that is \<^verbatim>\<open>None\<close> as \<^verbatim>\<open>null\<close>, and the scanned datasets as an array (written
  here in ascending order; \<^verbatim>\<open>from_dict\<close> makes a set of it again).
\<close>

definition json_opt_str :: "string option \<Rightarrow> json" where
  "json_opt_str x = (case x of None \<Rightarrow> JNull | Some s \<Rightarrow> JStr s)"

definition json_dump :: "CacheState \<Rightarrow> disk_content" where
  "json_dump c =
     (if files c \<noteq> [] then Unparseable
      else Json (JObj
        [(''version'', JStr (version c)),
         (''created_at'', json_opt_str (created_at c)),
         (''last_updated'', json_opt_str (last_updated c)),
         (''files'', JObj []),
         (''datasets_scanned'', JList (map JInt (sorted_list_of_set (datasets_scanned c)))),
         (''max_dataset_found'', JInt (max_dataset_found c)),
         (''total_discovered'', JInt (total_discovered c)),
         (''total_downloaded'', JInt (total_downloaded c)),
         (''total_failed'', JInt (total_failed c)),
         (''total_skipped'', JInt (total_skipped c))]))"

text \<open>\<^verbatim>\<open>_save_cache\<close>: the time stamp, the backup copy of an existing cache file,
  the dump; an exception of the dump is caught and logged.\<close>

definition save_cache :: "string \<Rightarrow> world \<Rightarrow> world" where
  "save_cache now w =
     (let c = (cache w)\<lparr>last_updated := Some now\<rparr>;
          bk = (case cache_file w of
                  None \<Rightarrow> backup_cache_file w
                | Some d \<Rightarrow> Some d)
      in w\<lparr>cache := c, backup_cache_file := bk, cache_file := Some (json_dump c)\<rparr>)"

section \<open>Polite transport\<close>

text \<open>
  \<^verbatim>\<open>_make_request\<close>: \<open>None\<close> for a 403, for a timeout and for any other
  exception; the response otherwise.  The URL is appended to the request log.
\<close>

definition make_request :: "server \<Rightarrow> string \<Rightarrow> world \<Rightarrow> response option \<times> world" where
  "make_request srv u w =
     (let w' = w\<lparr>requests := requests w @ [u]\<rparr>
      in case srv u of
           Replied r \<Rightarrow> (if status_code r = 403 then (None, w') else (Some r, w'))
         | TimeoutExc \<Rightarrow> (None, w')
         | OtherExc e \<Rightarrow> (None, w'))"

section \<open>Dataset discoverer\<close>

record dstate =
  existing_datasets :: "int list"
  consecutive_failures :: int
  current_dataset :: int
  dworld :: world

text \<open>
  One iteration of the \<^verbatim>\<open>while\<close> of \<^verbatim>\<open>discover_all_datasets\<close>.  Nothing inside
  its \<^verbatim>\<open>try\<close> raises in this model, so the \<^verbatim>\<open>except\<close> branch has no counterpart.
\<close>

definition discover_step :: "server \<Rightarrow> string \<Rightarrow> dstate \<Rightarrow> dstate" where
  "discover_step srv now s =
     (let cur = current_dataset s;
          (resp, w1) = make_request srv (dataset_url cur) (dworld s);
          s1 = (case resp of
                  None \<Rightarrow> s\<lparr>consecutive_failures := consecutive_failures s + 1, dworld := w1\<rparr>
                | Some r \<Rightarrow>
                    if status_code r = 200 then
                      s\<lparr>existing_datasets := existing_datasets s @ [cur],
                        consecutive_failures := 0,
                        dworld := (if cur > max_dataset_found (cache w1)
                                   then w1\<lparr>cache := (cache w1)\<lparr>max_dataset_found := cur\<rparr>\<rparr>
                                   else w1)\<rparr>
                    else if status_code r = 404 then
                      s\<lparr>consecutive_failures := consecutive_failures s + 1, dworld := w1\<rparr>
                    else
                      s\<lparr>consecutive_failures := consecutive_failures s + 1, dworld := w1\<rparr>);
          s2 = s1\<lparr>current_dataset := cur + 1\<rparr>
      in if current_dataset s2 mod 10 = 0
         then s2\<lparr>dworld := save_cache now (dworld s2)\<rparr>
         else s2)"

text \<open>The \<^verbatim>\<open>while consecutive_failures < max_consecutive_failures\<close> loop; it has no
  other exit, so not returning is the value \<open>None\<close>.\<close>

partial_function (option) discover_loop :: "server \<Rightarrow> string \<Rightarrow> int \<Rightarrow> dstate \<Rightarrow> dstate option" where
  "discover_loop srv now T s =
     (if consecutive_failures s < T
      then discover_loop srv now T (discover_step srv now s)
      else Some s)"

declare discover_loop.simps [code]

text \<open>The loop variables before the first iteration.\<close>

definition probe_start :: "int \<Rightarrow> world \<Rightarrow> dstate" where
  "probe_start start_from w =
     \<lparr>existing_datasets = [], consecutive_failures = 0,
      current_dataset = start_from, dworld = w\<rparr>"

definition discover_all_datasets ::
  "server \<Rightarrow> string \<Rightarrow> int \<Rightarrow> int \<Rightarrow> world \<Rightarrow> (int list \<times> world) option" where
  "discover_all_datasets srv now start_from T w =
     (case discover_loop srv now T (probe_start start_from w) of
        None \<Rightarrow> None
      | Some s \<Rightarrow> Some (existing_datasets s, save_cache now (dworld s)))"

section \<open>Link extractor\<close>

text \<open>
  \<^verbatim>\<open>_extract_file_links\<close> matches three regular expressions against the page,
  resolves each match to a URL and keeps the ones whose file name passes its
  filters.  That scan is the parameter \<open>scan\<close>: from the page body and the page
  URL to the (URL, file name) pairs, in the order found.  The records are built
  from the pairs as the source does.
\<close>

type_synonym link_scan = "string \<Rightarrow> string \<Rightarrow> (string \<times> string) list"

definition extract_file_links ::
  "link_scan \<Rightarrow> string \<Rightarrow> string \<Rightarrow> string \<Rightarrow> int \<Rightarrow> FileMetadata list" where
  "extract_file_links scan now html pg d =
     map (\<lambda>(u, fname). new_FileMetadata u fname d now) (scan html pg)"

section \<open>Page walker\<close>

text \<open>The \<^verbatim>\<open>seen_urls\<close> loops: keep the first record of every URL.\<close>

fun unique_by_url :: "string set \<Rightarrow> FileMetadata list \<Rightarrow> FileMetadata list" where
  "unique_by_url seen [] = []"
| "unique_by_url seen (f # rest) =
     (if url f \<notin> seen then f # unique_by_url (insert (url f) seen) rest
      else unique_by_url seen rest)"

record pstate =
  all_files :: "FileMetadata list"
  page :: int
  consecutive_empty_pages :: int
  pworld :: world

datatype 'a flow = Break 'a | Next 'a

text \<open>
  The \<^verbatim>\<open>try\<close> block of one iteration of the \<^verbatim>\<open>while\<close> of
  \<^verbatim>\<open>discover_dataset_pages\<close>; \<open>Break\<close> is its \<^verbatim>\<open>break\<close>.  Nothing inside it raises
  in this model, so the \<^verbatim>\<open>except\<close> branch has no counterpart.
\<close>

definition page_body :: "server \<Rightarrow> link_scan \<Rightarrow> string \<Rightarrow> int \<Rightarrow> pstate \<Rightarrow> pstate flow" where
  "page_body srv scan now d s =
     (let u = page_url d (page s);
          (resp, w1) = make_request srv u (pworld s)
      in case resp of
           None \<Rightarrow> Break (s\<lparr>pworld := w1\<rparr>)
         | Some r \<Rightarrow>
             if status_code r = 200 then
               (let fls = extract_file_links scan now (content r) u d
                in if fls \<noteq> [] then
                     Next (s\<lparr>all_files := all_files s @ unique_by_url {} fls,
                             consecutive_empty_pages := 0, pworld := w1\<rparr>)
                   else
                     Next (s\<lparr>consecutive_empty_pages := consecutive_empty_pages s + 1,
                             pworld := w1\<rparr>))
             else if status_code r = 404 then Break (s\<lparr>pworld := w1\<rparr>)
             else Next (s\<lparr>consecutive_empty_pages := consecutive_empty_pages s + 1,
                          pworld := w1\<rparr>))"

text \<open>\<^verbatim>\<open>max_consecutive_empty = 3\<close>.\<close>

definition max_consecutive_empty :: int where
  "max_consecutive_empty = 3"

function pages_loop :: "server \<Rightarrow> link_scan \<Rightarrow> string \<Rightarrow> int \<Rightarrow> int \<Rightarrow> pstate \<Rightarrow> pstate" where
  "pages_loop srv scan now d max_pages s =
     (if page s < max_pages \<and> consecutive_empty_pages s < max_consecutive_empty then
        (case page_body srv scan now d s of
           Break s' \<Rightarrow> s'
         | Next s' \<Rightarrow> pages_loop srv scan now d max_pages (s'\<lparr>page := page s + 1\<rparr>))
      else s)"
  by pat_completeness auto
termination
  by (relation "measure (\<lambda>(srv, scan, now, d, max_pages, s). nat (max_pages - page s))") auto

declare pages_loop.simps [simp del]

text \<open>Lines 432-438: the records not yet in the cache; a known URL only has its
  cached record re-stamped.\<close>

fun filter_new :: "string \<Rightarrow> FileMetadata list \<Rightarrow> CacheState \<Rightarrow> FileMetadata list \<times> CacheState" where
  "filter_new now [] c = ([], c)"
| "filter_new now (f # rest) c =
     (case map_of (files c) (url f) of
        None \<Rightarrow> (let (new_files, c') = filter_new now rest c in (f # new_files, c'))
      | Some existing \<Rightarrow>
          filter_new now rest
            (c\<lparr>files := AList.update (url f) (existing\<lparr>last_checked := Some now\<rparr>) (files c)\<rparr>))"

text \<open>Lines 446-448.\<close>

fun add_new :: "FileMetadata list \<Rightarrow> CacheState \<Rightarrow> CacheState" where
  "add_new [] c = c"
| "add_new (f # rest) c =
     add_new rest (c\<lparr>files := AList.update (url f) f (files c),
                   total_discovered := total_discovered c + 1\<rparr>)"

text \<open>The loop variables before the first iteration.\<close>

definition walk_start :: "world \<Rightarrow> pstate" where
  "walk_start w = \<lparr>all_files = [], page = 0, consecutive_empty_pages = 0, pworld = w\<rparr>"

definition discover_dataset_pages ::
  "server \<Rightarrow> link_scan \<Rightarrow> string \<Rightarrow> int \<Rightarrow> int \<Rightarrow> world \<Rightarrow> FileMetadata list \<times> world" where
  "discover_dataset_pages srv scan now d max_pages w =
     (let s = pages_loop srv scan now d max_pages (walk_start w);
          unique_files = unique_by_url {} (all_files s);
          (new_files, c1) = filter_new now unique_files (cache (pworld s));
          c2 = add_new new_files c1;
          c3 = c2\<lparr>datasets_scanned := insert d (datasets_scanned c2)\<rparr>
      in (new_files, save_cache now ((pworld s)\<lparr>cache := c3\<rparr>)))"

section \<open>Downloader\<close>

definition verify_pdf :: "(string \<rightharpoonup> string) \<Rightarrow> string \<Rightarrow> bool" where
  "verify_pdf f p = (case f p of None \<Rightarrow> False | Some bytes \<Rightarrow> take 5 bytes = ''%PDF-'')"

text \<open>\<^verbatim>\<open>if response\<close>: a \<^verbatim>\<open>requests.Response\<close> is true when its status is no
  4xx or 5xx.\<close>

definition response_truthy :: "response \<Rightarrow> bool" where
  "response_truthy r = (\<not> (400 \<le> status_code r \<and> status_code r < 600))"

definition count_failed :: "string \<Rightarrow> FileMetadata \<Rightarrow> world \<Rightarrow> FileMetadata \<times> world" where
  "count_failed msg fm w =
     (fm\<lparr>last_error := Some msg, status := FAILED\<rparr>,
      w\<lparr>cache := (cache w)\<lparr>total_failed := total_failed (cache w) + 1\<rparr>\<rparr>)"

text \<open>
  Lines 494-563 of \<^verbatim>\<open>download_file\<close>: the fetch into \<^verbatim>\<open>.tmp\<close>, the two checks
  and the rename.  \<open>md5\<close> is \<^verbatim>\<open>_calculate_checksum\<close> on the bytes.  A body stream
  that raises leaves through the \<^verbatim>\<open>except\<close> branch, which removes the \<^verbatim>\<open>.tmp\<close>
  file.
\<close>

definition fetch_file ::
  "server \<Rightarrow> (string \<Rightarrow> string) \<Rightarrow> string \<Rightarrow> FileMetadata \<Rightarrow> world
    \<Rightarrow> (bool \<times> string option) \<times> FileMetadata \<times> world" where
  "fetch_file srv md5 now fm0 w0 =
     (let dataset_dir = get_dataset_dir (dataset fm0);
          fm = fm0\<lparr>download_attempts := download_attempts fm0 + 1, last_checked := Some now\<rparr>;
          temp_path = path_join dataset_dir (filename fm @ ''.tmp'');
          (resp, w) = make_request srv (url fm) w0
      in case resp of
           None \<Rightarrow> ((False, None), count_failed ''HTTP Blocked'' fm w)
         | Some r \<Rightarrow>
             if status_code r \<noteq> 200 then
               ((False, None),
                count_failed (''HTTP '' @ (if response_truthy r then str_int (status_code r)
                                           else ''Blocked'')) fm w)
             else
               (let w1 = w\<lparr>fs := (fs w)(temp_path \<mapsto> content r)\<rparr>
                in case stream_error r of
                     Some e \<Rightarrow>
                       (let (fm', w') = count_failed e fm w1
                        in ((False, None), fm', w'\<lparr>fs := (fs w')(temp_path := None)\<rparr>))
                   | None \<Rightarrow>
                       if \<not> verify_pdf (fs w1) temp_path then
                         ((False, None),
                          count_failed ''Invalid PDF'' fm (w1\<lparr>fs := (fs w1)(temp_path := None)\<rparr>))
                       else
                         (let fsize = int (length (content r))
                          in if fsize < 1024 then
                               ((False, None),
                                count_failed ''File too small'' fm
                                  (w1\<lparr>fs := (fs w1)(temp_path := None)\<rparr>))
                             else
                               (let final_path = path_join dataset_dir (filename fm);
                                    w2 = w1\<lparr>fs := ((fs w1)(temp_path := None))
                                                     (final_path \<mapsto> content r)\<rparr>
                                in ((True, Some final_path),
                                    fm\<lparr>status := SUCCESS, download_path := Some final_path,
                                       file_size := Some fsize,
                                       checksum := Some (md5 (content r)),
                                       downloaded_at := Some now, last_error := None\<rparr>,
                                    w2\<lparr>cache := (cache w2)
                                         \<lparr>total_downloaded := total_downloaded (cache w2) + 1\<rparr>\<rparr>)))))"

text \<open>\<^verbatim>\<open>download_file\<close>: the record comes in and goes out as a value; the counters
  it bumps are the cache's.\<close>

definition download_file ::
  "server \<Rightarrow> (string \<Rightarrow> string) \<Rightarrow> string \<Rightarrow> FileMetadata \<Rightarrow> world
    \<Rightarrow> (bool \<times> string option) \<times> FileMetadata \<times> world" where
  "download_file srv md5 now fm w =
     (if status fm = SUCCESS \<and>
         (case download_path fm of None \<Rightarrow> False | Some p \<Rightarrow> p \<noteq> [] \<and> fs w p \<noteq> None)
      then ((False, download_path fm), fm, w)
      else
        (let local_file = path_join (get_dataset_dir (dataset fm)) (filename fm)
         in case fs w local_file of
              None \<Rightarrow> fetch_file srv md5 now fm w
            | Some bytes \<Rightarrow>
                if verify_pdf (fs w) local_file then
                  ((False, Some local_file),
                   fm\<lparr>status := SUCCESS, download_path := Some local_file,
                      file_size := Some (int (length bytes)),
                      checksum := Some (md5 bytes), downloaded_at := Some now\<rparr>,
                   w\<lparr>cache := (cache w)\<lparr>total_skipped := total_skipped (cache w) + 1\<rparr>\<rparr>)
                else fetch_file srv md5 now fm w))"

text \<open>
  \<^verbatim>\<open>process_dataset\<close> hands \<^verbatim>\<open>download_file\<close> the very objects that
  \<^verbatim>\<open>discover_dataset_pages\<close> stored in \<^verbatim>\<open>cache.files\<close>, each under its URL, so the
  mutation of the record is a mutation of the cache entry.  \<open>download_cached\<close>
  is that call, addressed by the key; a key that is not in the cache (which the
  program never passes) leaves the world as it is.
\<close>

definition download_cached ::
  "server \<Rightarrow> (string \<Rightarrow> string) \<Rightarrow> string \<Rightarrow> string \<Rightarrow> world
    \<Rightarrow> (bool \<times> string option) \<times> world" where
  "download_cached srv md5 now u w =
     (case map_of (files (cache w)) u of
        None \<Rightarrow> ((False, None), w)
      | Some fm \<Rightarrow>
          (let (res, fm', w1) = download_file srv md5 now fm w
           in (res, w1\<lparr>cache := (cache w1)\<lparr>files := AList.update u fm' (files (cache w1))\<rparr>\<rparr>)))"

section \<open>Run controller\<close>

record results =
  r_dataset :: int
  total_files :: int
  downloaded :: int
  skipped :: int
  failed :: int
  total_size :: int

text \<open>The \<^verbatim>\<open>for i, file_meta in enumerate(files, 1)\<close> loop of \<^verbatim>\<open>process_dataset\<close>,
  with \<open>n\<close> for \<^verbatim>\<open>len(files)\<close>.\<close>

fun download_each ::
  "server \<Rightarrow> (string \<Rightarrow> string) \<Rightarrow> string \<Rightarrow> int \<Rightarrow> int \<Rightarrow> FileMetadata list
    \<Rightarrow> results \<Rightarrow> world \<Rightarrow> results \<times> world" where
  "download_each srv md5 now i n [] r w = (r, w)"
| "download_each srv md5 now i n (f # rest) r w =
     (let ((success, file_path), w1) = download_cached srv md5 now (url f) w;
          fsize = (case map_of (files (cache w1)) (url f) of
                     None \<Rightarrow> 0
                   | Some fm \<Rightarrow> (case file_size fm of None \<Rightarrow> 0 | Some k \<Rightarrow> k));
          r1 = (if success then
                  r\<lparr>downloaded := downloaded r + 1, total_size := total_size r + fsize\<rparr>
                else if (case file_path of None \<Rightarrow> False | Some p \<Rightarrow> p \<noteq> []) then
                  r\<lparr>skipped := skipped r + 1\<rparr>
                else r\<lparr>failed := failed r + 1\<rparr>);
          w2 = (if i mod 10 = 0 \<or> i = n then save_cache now w1 else w1)
      in download_each srv md5 now (i + 1) n rest r1 w2)"

definition process_dataset ::
  "server \<Rightarrow> link_scan \<Rightarrow> (string \<Rightarrow> string) \<Rightarrow> string \<Rightarrow> int \<Rightarrow> bool \<Rightarrow> world
    \<Rightarrow> results \<times> world" where
  "process_dataset srv scan md5 now d download w =
     (let (fls, w1) = discover_dataset_pages srv scan now d 1000 w;
          r0 = \<lparr>r_dataset = d, total_files = int (length fls), downloaded = 0,
                skipped = 0, failed = 0, total_size = 0\<rparr>
      in if fls = [] then (r0, w1)
         else
           (let (r1, w2) = (if download
                            then download_each srv md5 now 1 (int (length fls)) fls r0 w1
                            else (r0, w1))
            in (r1, save_cache now w2)))"

text \<open>The \<^verbatim>\<open>for\<close> over the discovered datasets in \<^verbatim>\<open>discover_and_process_all\<close>.\<close>

fun process_each ::
  "server \<Rightarrow> link_scan \<Rightarrow> (string \<Rightarrow> string) \<Rightarrow> string \<Rightarrow> bool \<Rightarrow> int list
    \<Rightarrow> results list \<Rightarrow> world \<Rightarrow> results list \<times> world" where
  "process_each srv scan md5 now download [] all_results w = (all_results, w)"
| "process_each srv scan md5 now download (d # ds) all_results w =
     (let (r, w1) = process_dataset srv scan md5 now d download w
      in process_each srv scan md5 now download ds (all_results @ [r]) w1)"

text \<open>\<^verbatim>\<open>discover_and_process_all\<close>; \<open>None\<close> when the dataset discovery does not
  return.\<close>

definition discover_and_process_all ::
  "server \<Rightarrow> link_scan \<Rightarrow> (string \<Rightarrow> string) \<Rightarrow> string \<Rightarrow> int \<Rightarrow> bool \<Rightarrow> world
    \<Rightarrow> (results list \<times> world) option" where
  "discover_and_process_all srv scan md5 now start_dataset download w =
     (case discover_all_datasets srv now start_dataset 10 w of
        None \<Rightarrow> None
      | Some (all_datasets, w1) \<Rightarrow>
          Some (process_each srv scan md5 now download all_datasets [] w1))"

text \<open>A path inside one of the directories \<^verbatim>\<open>raw/dataset*\<close>.\<close>

definition in_dataset_dir :: "string \<Rightarrow> bool" where
  "in_dataset_dir p =
     (let pre = ''/data/downloads/raw/dataset''
      in take (length pre) p = pre \<and> CHR ''/'' \<in> set (drop (length pre) p))"

definition cleanup_all :: "string \<Rightarrow> world \<Rightarrow> world" where
  "cleanup_all now w =
     save_cache now
       (w\<lparr>fs := (\<lambda>p. if in_dataset_dir p then None else fs w p),
          cache := (cache w)\<lparr>files := [], datasets_scanned := {}, max_dataset_found := 0,
                             total_discovered := 0, total_downloaded := 0,
                             total_failed := 0, total_skipped := 0\<rparr>\<rparr>)"

text \<open>\<^verbatim>\<open>UnlimitedEpsteinArchiver()\<close>: a new process starts from what is on disk.
  \<^verbatim>\<open>_load_cache\<close> raises nothing; \<open>None\<close> is the start from an ill-typed state,
  which the embedding does not follow.\<close>

definition start_archiver :: "string \<Rightarrow> world \<Rightarrow> world option" where
  "start_archiver now w =
     (case load_cache now (cache_file w) of
        Returns c \<Rightarrow> Some (w\<lparr>cache := c\<rparr>)
      | _ \<Rightarrow> None)"

text \<open>
  \<^verbatim>\<open>get_statistics\<close>.  \<^verbatim>\<open>datetime.fromisoformat\<close> raises \<^verbatim>\<open>TypeError\<close> for
  \<^verbatim>\<open>None\<close>; whether a string is a time stamp that it accepts (and that can be
  subtracted from the current time) is the parameter \<open>isofmt\<close>, with \<^verbatim>\<open>ValueError\<close>
  otherwise.  Of the dictionary returned, the three entries under \<^verbatim>\<open>cache\<close> are
  kept here; the listing of the local files, which precedes the time stamp and
  raises nothing, and the duration, a real number, are left out.
\<close>

definition get_statistics :: "(string \<Rightarrow> bool) \<Rightarrow> world \<Rightarrow> exn + (int \<times> int \<times> int)" where
  "get_statistics isofmt w =
     (case created_at (cache w) of
        None \<Rightarrow> Inl TypeError
      | Some t \<Rightarrow>
          if isofmt t then
            Inr (int (length (files (cache w))), int (card (datasets_scanned (cache w))),
                 max_dataset_found (cache w))
          else Inl ValueError)"

text \<open>
  \<^verbatim>\<open>main\<close> with \<^verbatim>\<open>--stats\<close>: the archiver is started and the statistics are
  printed (the three lines about the cache are kept); an exception arrives at
  the \<^verbatim>\<open>except Exception\<close> clause of \<^verbatim>\<open>main\<close>, which prints it and leaves with
  \<^verbatim>\<open>sys.exit(1)\<close>.  The first component is the exit status of the process.
\<close>

definition main_stats :: "(string \<Rightarrow> bool) \<Rightarrow> string \<Rightarrow> world \<Rightarrow> (int \<times> world) option" where
  "main_stats isofmt now w =
     (case start_archiver now w of
        None \<Rightarrow> None
      | Some w1 \<Rightarrow>
          (case get_statistics isofmt w1 of
             Inl e \<Rightarrow> Some (1, w1\<lparr>stdout := stdout w1 @ [''Fatal error'']\<rparr>)
           | Inr (n, k, m) \<Rightarrow>
               Some (0, w1\<lparr>stdout := stdout w1 @
                      [''Cache: '' @ str_int n @ '' files tracked'',
                       ''Datasets scanned: '' @ str_int k,
                       ''Max dataset found: '' @ str_int m]\<rparr>)))"

text \<open>
  The \<^verbatim>\<open>except KeyboardInterrupt\<close> clause of \<^verbatim>\<open>main\<close>, which is where an interrupt
  raised anywhere in a run arrives (no \<^verbatim>\<open>except Exception\<close> on the way catches
  it): two \<^verbatim>\<open>print\<close> calls, then the process ends.  The messages are written
  here without their pictographs.
\<close>

definition main_interrupted :: "world \<Rightarrow> world" where
  "main_interrupted w =
     w\<lparr>stdout := stdout w @ [''Process interrupted by user'', ''Cache has been saved'']\<rparr>"

text \<open>The world before the first run: nothing on disk, nothing requested.\<close>

definition fresh_world :: "string \<Rightarrow> world" where
  "fresh_world now =
     \<lparr>cache = new_CacheState now, fs = Map.empty, cache_file = None,
      backup_cache_file = None, requests = [], stdout = []\<rparr>"

section \<open>Vocabulary of the properties\<close>

text \<open>What the server answers for page \<open>p\<close> of dataset \<open>d\<close>: a 200 whose body has no
  link, or a 200 whose body has at least one.\<close>

definition ok_empty :: "server \<Rightarrow> link_scan \<Rightarrow> int \<Rightarrow> int \<Rightarrow> bool" where
  "ok_empty srv scan d p =
     (case srv (page_url d p) of
        Replied r \<Rightarrow> status_code r = 200 \<and> scan (content r) (page_url d p) = []
      | _ \<Rightarrow> False)"

definition ok_links :: "server \<Rightarrow> link_scan \<Rightarrow> int \<Rightarrow> int \<Rightarrow> bool" where
  "ok_links srv scan d p =
     (case srv (page_url d p) of
        Replied r \<Rightarrow> status_code r = 200 \<and> scan (content r) (page_url d p) \<noteq> []
      | _ \<Rightarrow> False)"

text \<open>The world of the walker after the request for its current page.\<close>

definition logged :: "int \<Rightarrow> pstate \<Rightarrow> world" where
  "logged d s = (pworld s)\<lparr>requests := requests (pworld s) @ [page_url d (page s)]\<rparr>"

text \<open>The probe of dataset \<open>d\<close> is answered with a 200 (anything else, a 403, a 404,
  another status, a timeout or another exception, is a failure).\<close>

definition dataset_ok :: "server \<Rightarrow> int \<Rightarrow> bool" where
  "dataset_ok srv d =
     (case srv (dataset_url d) of
        Replied r \<Rightarrow> status_code r = 200
      | _ \<Rightarrow> False)"

text \<open>
  The loop invariant of the dataset discovery started at \<open>start\<close> in world \<open>w\<close>:
  the ids \<open>start .. current_dataset - 1\<close> have been probed in order, the list
  holds those answered with a 200, and the last \<open>consecutive_failures\<close> probes
  all failed.
\<close>

definition probed :: "server \<Rightarrow> int \<Rightarrow> world \<Rightarrow> dstate \<Rightarrow> bool" where
  "probed srv start w s =
     (start \<le> current_dataset s - consecutive_failures s \<and>
      0 \<le> consecutive_failures s \<and>
      existing_datasets s = filter (dataset_ok srv) [start..current_dataset s - 1] \<and>
      requests (dworld s) = requests w @ map dataset_url [start..current_dataset s - 1] \<and>
      (\<forall>d. current_dataset s - consecutive_failures s \<le> d \<and> d < current_dataset s
           \<longrightarrow> \<not> dataset_ok srv d))"

text \<open>The statuses of the cached records, in dictionary order, and the number of
  records with a given status.\<close>

definition statuses :: "CacheState \<Rightarrow> DownloadStatus list" where
  "statuses c = map (\<lambda>p. status (snd p)) (files c)"

definition count_status :: "DownloadStatus \<Rightarrow> CacheState \<Rightarrow> int" where
  "count_status st c = int (count_list (statuses c) st)"

text \<open>
  A record's status together with whether \<^verbatim>\<open>download_attempts\<close> is still 0.
  \<^verbatim>\<open>download_file\<close> adds one to \<^verbatim>\<open>download_attempts\<close> before it fetches and
  leaves it alone when it finds the file in place, so among the \<^verbatim>\<open>SUCCESS\<close>
  records the ones with no attempt are the files found in place and the others
  are the files fetched.
\<close>

definition mark :: "FileMetadata \<Rightarrow> DownloadStatus \<times> bool" where
  "mark fm = (status fm, download_attempts fm = 0)"

definition marks :: "CacheState \<Rightarrow> (DownloadStatus \<times> bool) list" where
  "marks c = map (\<lambda>p. mark (snd p)) (files c)"

definition count_mark :: "DownloadStatus \<times> bool \<Rightarrow> CacheState \<Rightarrow> int" where
  "count_mark m c = int (count_list (marks c) m)"

definition count_in_place :: "CacheState \<Rightarrow> int" where
  "count_in_place c = count_mark (SUCCESS, True) c"

definition count_fetched :: "CacheState \<Rightarrow> int" where
  "count_fetched c = count_mark (SUCCESS, False) c"

text \<open>The test of lines 484-486 of \<^verbatim>\<open>download_file\<close>: the file of the record lies
  in its dataset directory and has the PDF signature.\<close>

definition in_place :: "world \<Rightarrow> FileMetadata \<Rightarrow> bool" where
  "in_place w fm = verify_pdf (fs w) (path_join (get_dataset_dir (dataset fm)) (filename fm))"

text \<open>
  What the counters of a cache state have to do with its records in this
  program: the keys are distinct, \<^verbatim>\<open>total_discovered\<close> is their number,
  \<^verbatim>\<open>total_failed\<close> is the number of \<^verbatim>\<open>FAILED\<close> records, \<^verbatim>\<open>total_downloaded\<close> and
  \<^verbatim>\<open>total_skipped\<close> together are the number of \<^verbatim>\<open>SUCCESS\<close> records, and no
  record is \<^verbatim>\<open>SKIPPED\<close>; \<^verbatim>\<open>total_skipped\<close> is the number of \<^verbatim>\<open>SUCCESS\<close> records
  found in place, \<^verbatim>\<open>total_downloaded\<close> the number of \<^verbatim>\<open>SUCCESS\<close> records fetched,
  and no \<^verbatim>\<open>PENDING\<close> record has a download attempt.
\<close>

definition consistent :: "CacheState \<Rightarrow> bool" where
  "consistent c =
     (distinct (map fst (files c)) \<and>
      total_discovered c = int (length (files c)) \<and>
      total_failed c = count_status FAILED c \<and>
      total_downloaded c + total_skipped c = count_status SUCCESS c \<and>
      count_status SKIPPED c = 0 \<and>
      total_skipped c = count_in_place c \<and>
      total_downloaded c = count_fetched c \<and>
      count_mark (PENDING, False) c = 0)"

text \<open>A cache file is consistent when the state that is read from it, if one is
  read, is consistent.\<close>

definition disk_consistent :: "disk_content option \<Rightarrow> bool" where
  "disk_consistent f =
     (case f of
        None \<Rightarrow> True
      | Some d \<Rightarrow> (case read_cache d of Returns c \<Rightarrow> consistent c | _ \<Rightarrow> True))"

definition world_consistent :: "world \<Rightarrow> bool" where
  "world_consistent w =
     (consistent (cache w) \<and> disk_consistent (cache_file w) \<and>
      disk_consistent (backup_cache_file w))"

text \<open>
  The worlds the program can be in: it starts on an empty disk; a process starts
  from what is on disk; a dataset is probed, a dataset's pages are walked, a
  record that is still \<^verbatim>\<open>PENDING\<close> is downloaded (\<^verbatim>\<open>process_dataset\<close> downloads
  the new records of a walk, once each, and nothing else does), the cache is
  saved, everything is cleaned up; and the payload directory may change under
  the program's feet.
\<close>

inductive reachable :: "world \<Rightarrow> bool" where
  start: "reachable (fresh_world now)"
| restart: "reachable w \<Longrightarrow> start_archiver now w = Some w' \<Longrightarrow> reachable w'"
| probe: "reachable (dworld s) \<Longrightarrow> reachable (dworld (discover_step srv now s))"
| walk: "reachable w \<Longrightarrow> reachable (snd (discover_dataset_pages srv scan now d max_pages w))"
| download: "reachable w \<Longrightarrow> map_of (files (cache w)) u = Some fm \<Longrightarrow> status fm = PENDING \<Longrightarrow>
     reachable (snd (download_cached srv md5 now u w))"
| save: "reachable w \<Longrightarrow> reachable (save_cache now w)"
| cleanup: "reachable w \<Longrightarrow> reachable (cleanup_all now w)"
| payload: "reachable w \<Longrightarrow> reachable (w\<lparr>fs := f\<rparr>)"

text \<open>
  What one download of a pending record \<open>fm\<close> does to the record and to the
  counters: found in place, it is a success with no attempt and one more
  skipped; otherwise it is one more attempt and either a success and one more
  downloaded or a failure and one more failed; and nothing else changes.
\<close>

definition download_outcome :: "FileMetadata \<Rightarrow> FileMetadata \<Rightarrow> world \<Rightarrow> world \<Rightarrow> bool" where
  "download_outcome fm fm' w w1 =
     (files (cache w1) = files (cache w) \<and>
      total_discovered (cache w1) = total_discovered (cache w) \<and>
      cache_file w1 = cache_file w \<and> backup_cache_file w1 = backup_cache_file w \<and>
      (if in_place w fm then
         status fm' = SUCCESS \<and> download_attempts fm' = download_attempts fm \<and>
         total_skipped (cache w1) = total_skipped (cache w) + 1 \<and>
         total_downloaded (cache w1) = total_downloaded (cache w) \<and>
         total_failed (cache w1) = total_failed (cache w)
       else
         download_attempts fm' = download_attempts fm + 1 \<and>
         (status fm' = SUCCESS \<and>
          total_downloaded (cache w1) = total_downloaded (cache w) + 1 \<and>
          total_skipped (cache w1) = total_skipped (cache w) \<and>
          total_failed (cache w1) = total_failed (cache w) \<or>
          status fm' = FAILED \<and>
          total_failed (cache w1) = total_failed (cache w) + 1 \<and>
          total_downloaded (cache w1) = total_downloaded (cache w) \<and>
          total_skipped (cache w1) = total_skipped (cache w))))"

section \<open>Servers and files used as concrete inputs\<close>

definition reply :: "int \<Rightarrow> string \<Rightarrow> http_result" where
  "reply code body = Replied \<lparr>status_code = code, content = body, stream_error = None\<rparr>"

text \<open>A scan for pages whose body is the name of at most one file.\<close>

definition one_link_scan :: link_scan where
  "one_link_scan html pg =
     (if html = [] then [] else [(''https://www.justice.gov/epstein/files/'' @ html, html)])"

text \<open>Dataset 1 with the pages non-empty, non-empty, empty, empty, empty,
  non-empty.\<close>

definition srv_walk :: server where
  "srv_walk u =
     (if u = page_url 1 0 then reply 200 ''a.pdf''
      else if u = page_url 1 1 then reply 200 ''b.pdf''
      else if u = page_url 1 2 \<or> u = page_url 1 3 \<or> u = page_url 1 4 then reply 200 []
      else if u = page_url 1 5 then reply 200 ''c.pdf''
      else reply 404 [])"

text \<open>Dataset 1 with a first page of one file, a second page that times out and
  a third page of one file.\<close>

definition srv_timeout :: server where
  "srv_timeout u =
     (if u = page_url 1 0 then reply 200 ''a.pdf''
      else if u = page_url 1 1 then TimeoutExc
      else if u = page_url 1 2 then reply 200 ''c.pdf''
      else reply 404 [])"

text \<open>Datasets 1, 2 and 3 exist, every other URL is a 404.\<close>

definition srv_three :: server where
  "srv_three u =
     (if u = dataset_url 1 \<or> u = dataset_url 2 \<or> u = dataset_url 3 then reply 200 []
      else reply 404 [])"

text \<open>Every URL is answered with a 200 and an empty body.\<close>

definition srv_always :: server where
  "srv_always u = reply 200 []"

text \<open>A pending record whose file is already in its dataset directory, eight
  bytes long.\<close>

definition stub_record :: FileMetadata where
  "stub_record =
     new_FileMetadata ''https://www.justice.gov/epstein/files/a.pdf'' ''a.pdf'' 1 ''t0''"

definition world_with_stub :: world where
  "world_with_stub =
     (fresh_world ''t0'')\<lparr>fs := [''/data/downloads/raw/dataset1/a.pdf'' \<mapsto> ''%PDF-1.4'']\<rparr>"

text \<open>Every URL is answered with a 200 and the same eight bytes.\<close>

definition srv_stub_body :: server where
  "srv_stub_body u = reply 200 ''%PDF-1.4''"

text \<open>The world after the pages of dataset 1 of \<open>srv_walk\<close> have been walked on a
  fresh disk.\<close>

definition walked_world :: world where
  "walked_world =
     snd (discover_dataset_pages srv_walk one_link_scan ''t1'' 1 1000 (fresh_world ''t0''))"

text \<open>Dataset 1 has one page with one file, \<^verbatim>\<open>a.pdf\<close>, served as 1024 bytes that
  start with the PDF signature; every other URL is a 404.\<close>

definition pdf_body :: string where
  "pdf_body = ''%PDF-'' @ replicate 1019 (CHR ''x'')"

definition srv_pdf :: server where
  "srv_pdf u =
     (if u = page_url 1 0 then reply 200 ''a.pdf''
      else if u = ''https://www.justice.gov/epstein/files/a.pdf'' then reply 200 pdf_body
      else reply 404 [])"

text \<open>A disk whose cache file is the document \<^verbatim>\<open>{}\<close>, and one whose cache file
  holds a file record without a \<^verbatim>\<open>status\<close>.\<close>

definition world_with_empty_document :: world where
  "world_with_empty_document = (fresh_world ''t0'')\<lparr>cache_file := Some (Json (JObj []))\<rparr>"

definition document_without_status :: json where
  "document_without_status =
     JObj [(''files'', JObj [(''https://www.justice.gov/epstein/files/a.pdf'',
                               JObj [(''url'', JStr ''https://www.justice.gov/epstein/files/a.pdf'')])])]"

text \<open>
  A scan for pages whose body is the name of one file that the page links
  twice, once plainly and once with a query string: two URLs, one file name.
\<close>

definition versions_scan :: link_scan where
  "versions_scan html pg =
     (if html = [] then []
      else [(''https://www.justice.gov/epstein/files/'' @ html, html),
            (''https://www.justice.gov/epstein/files/'' @ html @ ''?v=2'', html)])"

text \<open>The world after dataset 1 of \<open>srv_pdf\<close> has been processed with that scan on a
  fresh disk.\<close>

definition two_links_world :: world where
  "two_links_world =
     snd (process_dataset srv_pdf versions_scan id ''t1'' 1 True (fresh_world ''t0''))"

text \<open>The world a run ends in, and the number of new records it reports for each
  dataset (\<^verbatim>\<open>total_files\<close> is \<^verbatim>\<open>len\<close> of what the page walk returned).\<close>

definition world_after :: "(results list \<times> world) option \<Rightarrow> world" where
  "world_after r = (case r of None \<Rightarrow> fresh_world [] | Some (rs, w) \<Rightarrow> w)"

definition new_records :: "(results list \<times> world) option \<Rightarrow> int list option" where
  "new_records r = (case r of None \<Rightarrow> None | Some (rs, w) \<Rightarrow> Some (map total_files rs))"

text \<open>
  A first process on an empty disk; then a second process started on the disk
  the first one left; and, for comparison, a second call within the first
  process, on its cache in memory.
\<close>

definition first_run :: "(results list \<times> world) option" where
  "first_run =
     Option.bind (start_archiver ''t1'' (fresh_world ''t0''))
       (discover_and_process_all srv_pdf one_link_scan id ''t1'' 1 True)"

definition second_run :: "(results list \<times> world) option" where
  "second_run =
     Option.bind (start_archiver ''t2'' (world_after first_run))
       (discover_and_process_all srv_pdf one_link_scan id ''t2'' 1 True)"

definition same_process_second_run :: "(results list \<times> world) option" where
  "same_process_second_run =
     discover_and_process_all srv_pdf one_link_scan id ''t2'' 1 True (world_after first_run)"

section \<open>Cache store: loading\<close>

lemma load_cache_never_raises: "load_cache now f \<noteq> Raises e"
  by (simp add: load_cache_def split: option.splits outcome.splits)

lemma load_cache_raises_fresh:
  "read_cache d = Raises e \<Longrightarrow> load_cache now (Some d) = Returns (new_CacheState now)"
  by (simp add: load_cache_def)

lemma fresh_state_empty:
  "files (new_CacheState now) = [] \<and> datasets_scanned (new_CacheState now) = {} \<and>
   max_dataset_found (new_CacheState now) = 0 \<and> total_discovered (new_CacheState now) = 0 \<and>
   total_downloaded (new_CacheState now) = 0 \<and> total_failed (new_CacheState now) = 0 \<and>
   total_skipped (new_CacheState now) = 0"
  by (simp add: new_CacheState_def)

text \<open>
  C9.  \<^verbatim>\<open>_load_cache\<close> raises nothing: it returns the fresh state (no files, no
  scanned datasets, all counters at zero) when there is no cache file, when the
  content is no JSON document and when \<^verbatim>\<open>from_dict\<close> raises on the document (a
  file record without \<^verbatim>\<open>status\<close>, a document that is an array).  But the
  document \<^verbatim>\<open>{}\<close> is read without an
  exception into a state whose \<^verbatim>\<open>created_at\<close> and \<^verbatim>\<open>last_updated\<close> are \<^verbatim>\<open>None\<close>,
  and that state is not usable: \<^verbatim>\<open>get_statistics\<close> raises \<^verbatim>\<open>TypeError\<close> on it
  and \<^verbatim>\<open>--stats\<close> ends with exit status 1, where a process started without a
  cache file prints its statistics and ends with status 0.
\<close>

theorem load_cache_empty_document_unusable:
  "load_cache now f \<noteq> Raises e \<and>
   load_cache now None = Returns (new_CacheState now) \<and>
   load_cache now (Some Unparseable) = Returns (new_CacheState now) \<and>
   read_cache (Json (JList [])) = Raises AttributeError \<and>
   load_cache now (Some (Json (JList []))) = Returns (new_CacheState now) \<and>
   read_cache (Json document_without_status) = Raises KeyError \<and>
   load_cache now (Some (Json document_without_status)) = Returns (new_CacheState now) \<and>
   files (new_CacheState now) = [] \<and> datasets_scanned (new_CacheState now) = {} \<and>
   max_dataset_found (new_CacheState now) = 0 \<and> total_discovered (new_CacheState now) = 0 \<and>
   total_downloaded (new_CacheState now) = 0 \<and> total_failed (new_CacheState now) = 0 \<and>
   total_skipped (new_CacheState now) = 0 \<and>
   load_cache ''t1'' (Some (Json (JObj []))) =
     Returns ((new_CacheState ''t1'')\<lparr>created_at := None, last_updated := None\<rparr>) \<and>
   map_option (get_statistics isofmt) (start_archiver ''t1'' world_with_empty_document) =
     Some (Inl TypeError) \<and>
   map_option fst (main_stats isofmt ''t1'' world_with_empty_document) = Some 1 \<and>
   map_option fst (main_stats (\<lambda>t. True) ''t1'' (fresh_world ''t0'')) = Some 0"
proof -
  have a: "read_cache (Json (JList [])) = Raises AttributeError"
    by (simp add: read_cache_def json_load_def CacheState_from_dict_def)
  have b: "read_cache (Json document_without_status) = Raises KeyError"
    by code_simp
  have c: "load_cache ''t1'' (Some (Json (JObj []))) =
     Returns ((new_CacheState ''t1'')\<lparr>created_at := None, last_updated := None\<rparr>)"
    by code_simp
  have d: "map_option (get_statistics isofmt) (start_archiver ''t1'' world_with_empty_document) =
     Some (Inl TypeError)"
    using c
    by (simp add: start_archiver_def world_with_empty_document_def fresh_world_def
        get_statistics_def)
  have e: "map_option fst (main_stats isofmt ''t1'' world_with_empty_document) = Some 1"
    using c
    by (simp add: main_stats_def start_archiver_def world_with_empty_document_def fresh_world_def
        get_statistics_def)
  have f: "map_option fst (main_stats (\<lambda>t. True) ''t1'' (fresh_world ''t0'')) = Some 0"
    by (simp add: main_stats_def start_archiver_def load_cache_def fresh_world_def
        get_statistics_def new_CacheState_def)
  show ?thesis
    using a b c d e f load_cache_never_raises[of now f e] fresh_state_empty[of now]
      load_cache_raises_fresh[OF a, of now] load_cache_raises_fresh[OF b, of now]
    by (simp add: load_cache_def read_cache_def json_load_def)
qed

section \<open>Properties of the page walker\<close>

lemma page_body_ok_empty:
  "ok_empty srv scan d (page s) \<Longrightarrow>
   page_body srv scan now d s =
     Next (s\<lparr>consecutive_empty_pages := consecutive_empty_pages s + 1, pworld := logged d s\<rparr>)"
  by (auto simp: ok_empty_def page_body_def make_request_def logged_def extract_file_links_def
      Let_def split: http_result.splits)

lemma unique_by_url_nonempty: "fls \<noteq> [] \<Longrightarrow> unique_by_url {} fls \<noteq> []"
  by (cases fls) auto

lemma page_body_ok_links:
  "ok_links srv scan d (page s) \<Longrightarrow>
   \<exists>found. found \<noteq> [] \<and> page_body srv scan now d s =
     Next (s\<lparr>all_files := all_files s @ found, consecutive_empty_pages := 0,
             pworld := logged d s\<rparr>)"
proof -
  assume "ok_links srv scan d (page s)"
  then obtain r where r: "srv (page_url d (page s)) = Replied r" "status_code r = 200"
      "scan (content r) (page_url d (page s)) \<noteq> []"
    by (auto simp: ok_links_def split: http_result.splits)
  let ?fls = "extract_file_links scan now (content r) (page_url d (page s)) d"
  have "?fls \<noteq> []" using r(3) by (simp add: extract_file_links_def)
  then have "unique_by_url {} ?fls \<noteq> []" by (rule unique_by_url_nonempty)
  moreover have "page_body srv scan now d s =
     Next (s\<lparr>all_files := all_files s @ unique_by_url {} ?fls, consecutive_empty_pages := 0,
             pworld := logged d s\<rparr>)"
    using r \<open>?fls \<noteq> []\<close> by (simp add: page_body_def make_request_def logged_def Let_def)
  ultimately show ?thesis by blast
qed

lemma page_body_Break:
  "page_body srv scan now d s = Break s' \<Longrightarrow> s' = s\<lparr>pworld := logged d s\<rparr>"
  by (auto simp: page_body_def make_request_def logged_def Let_def
      split: http_result.splits if_splits)

lemma page_body_Next:
  "page_body srv scan now d s = Next s' \<Longrightarrow>
     page s' = page s \<and> pworld s' = logged d s \<and>
     (consecutive_empty_pages s' = 0 \<or>
      consecutive_empty_pages s' = consecutive_empty_pages s + 1)"
  by (auto simp: page_body_def make_request_def logged_def Let_def
      split: http_result.splits if_splits)

lemma pages_loop_stop:
  "\<not> (page s < max_pages \<and> consecutive_empty_pages s < max_consecutive_empty) \<Longrightarrow>
   pages_loop srv scan now d max_pages s = s"
  by (subst pages_loop.simps) auto

text \<open>
  The requests of a walk are the pages from the current one up to some \<open>k - 1\<close>,
  in order, with \<open>k\<close> within the page ceiling and within three pages of the
  start of any run of three empty pages.
\<close>

lemma pages_loop_requests:
  "0 \<le> consecutive_empty_pages s \<Longrightarrow>
   \<exists>k. requests (pworld (pages_loop srv scan now d max_pages s)) =
         requests (pworld s) @ map (page_url d) [page s..k - 1] \<and>
       page s \<le> k \<and> (k \<le> max_pages \<or> k = page s) \<and>
       (\<forall>p. ok_empty srv scan d p \<and> ok_empty srv scan d (p + 1) \<and>
            ok_empty srv scan d (p + 2) \<and> page s \<le> p + 3 \<and>
            (p < page s \<longrightarrow> page s - p \<le> consecutive_empty_pages s)
            \<longrightarrow> k \<le> p + 3)"
proof (induction srv scan now d max_pages s rule: pages_loop.induct)
  case (1 srv scan now d max_pages s)
  let ?go = "page s < max_pages \<and> consecutive_empty_pages s < max_consecutive_empty"
  show ?case
  proof (cases ?go)
    case False
    then have "pages_loop srv scan now d max_pages s = s"
      by (rule pages_loop_stop)
    then show ?thesis
      by (intro exI[of _ "page s"]) simp
  next
    case True
    show ?thesis
    proof (cases "page_body srv scan now d s")
      case (Break s')
      then have s': "s' = s\<lparr>pworld := logged d s\<rparr>" by (rule page_body_Break)
      have run: "pages_loop srv scan now d max_pages s = s'"
        using True Break by (subst pages_loop.simps) simp
      show ?thesis
        unfolding run s' using True
        by (intro exI[of _ "page s + 1"]) (auto simp: logged_def max_consecutive_empty_def)
    next
      case (Next s')
      note nx = page_body_Next[OF Next]
      let ?s2 = "s'\<lparr>page := page s + 1\<rparr>"
      have run: "pages_loop srv scan now d max_pages s = pages_loop srv scan now d max_pages ?s2"
        using True Next by (subst pages_loop.simps) simp
      have nonneg: "0 \<le> consecutive_empty_pages ?s2"
        using nx "1.prems" by auto
      from "1.IH"[OF True Next nonneg]
      obtain k where k: "requests (pworld (pages_loop srv scan now d max_pages ?s2)) =
            requests (pworld ?s2) @ map (page_url d) [page ?s2..k - 1]"
          "page ?s2 \<le> k" "k \<le> max_pages \<or> k = page ?s2"
          "\<forall>p. ok_empty srv scan d p \<and> ok_empty srv scan d (p + 1) \<and>
               ok_empty srv scan d (p + 2) \<and> page ?s2 \<le> p + 3 \<and>
               (p < page ?s2 \<longrightarrow> page ?s2 - p \<le> consecutive_empty_pages ?s2)
               \<longrightarrow> k \<le> p + 3"
        by blast
      have log: "requests (pworld (pages_loop srv scan now d max_pages s)) =
            requests (pworld s) @ map (page_url d) [page s..k - 1]"
        using k(1,2) nx unfolding run
        by (simp add: logged_def upto_rec1[of "page s" "k - 1"])
      have bound: "k \<le> p + 3"
        if e: "ok_empty srv scan d p" "ok_empty srv scan d (p + 1)" "ok_empty srv scan d (p + 2)"
          and inv: "page s \<le> p + 3" "p < page s \<longrightarrow> page s - p \<le> consecutive_empty_pages s"
        for p
      proof -
        have le2: "page s \<le> p + 2"
          using inv True by (auto simp: max_consecutive_empty_def)
        have cnt: "p < page s + 1 \<longrightarrow> page s + 1 - p \<le> consecutive_empty_pages ?s2"
        proof
          assume "p < page s + 1"
          then have "page s = p \<or> page s = p + 1 \<or> page s = p + 2" using le2 by auto
          then have "ok_empty srv scan d (page s)" using e by auto
          from page_body_ok_empty[OF this, of now] Next
          have "consecutive_empty_pages s' = consecutive_empty_pages s + 1" by auto
          then show "page s + 1 - p \<le> consecutive_empty_pages ?s2"
            using inv "1.prems" by auto
        qed
        show ?thesis using k(4) e le2 cnt by auto
      qed
      show ?thesis
        using log k(2,3) True bound by (intro exI[of _ k]) auto
    qed
  qed
qed

lemma requests_save_cache: "requests (save_cache now w) = requests w"
  by (simp add: save_cache_def Let_def)

lemma requests_discover_dataset_pages:
  "requests (snd (discover_dataset_pages srv scan now d max_pages w)) =
   requests (pworld (pages_loop srv scan now d max_pages (walk_start w)))"
  by (simp add: discover_dataset_pages_def Let_def requests_save_cache split: prod.splits)

lemma srv_walk_run:
  "requests (snd (discover_dataset_pages srv_walk one_link_scan ''t1'' 1 1000 (fresh_world ''t0'')))
     = map (page_url 1) [0, 1, 2, 3, 4] \<and>
   map url (fst (discover_dataset_pages srv_walk one_link_scan ''t1'' 1 1000 (fresh_world ''t0'')))
     = [''https://www.justice.gov/epstein/files/a.pdf'',
        ''https://www.justice.gov/epstein/files/b.pdf'']"
  by code_simp

text \<open>
  C2.  In the page walk, a 200 page with no link adds one to
  \<^verbatim>\<open>consecutive_empty_pages\<close> and a 200 page with a link sets it to zero (both go
  on to the next page); a walk whose counter has reached 3 makes no further
  request; and if pages \<open>p\<close>, \<open>p + 1\<close>, \<open>p + 2\<close> are 200 pages with no link, the
  walk requests pages \<open>0 .. k - 1\<close> in order for some \<open>k \<le> p + 3\<close>, so never a page
  after the third of them.  For the pages non-empty, non-empty, empty, empty,
  empty, non-empty the requests are exactly pages 0 to 4 and the records of
  the first two pages are returned.
\<close>

theorem page_walk_stops_after_three_empty:
  "(ok_empty srv scan d (page s) \<longrightarrow>
      page_body srv scan now d s =
        Next (s\<lparr>consecutive_empty_pages := consecutive_empty_pages s + 1,
                pworld := logged d s\<rparr>)) \<and>
   (ok_links srv scan d (page s) \<longrightarrow>
      (\<exists>found. found \<noteq> [] \<and> page_body srv scan now d s =
         Next (s\<lparr>all_files := all_files s @ found, consecutive_empty_pages := 0,
                 pworld := logged d s\<rparr>))) \<and>
   (max_consecutive_empty \<le> consecutive_empty_pages s \<longrightarrow>
      pages_loop srv scan now d max_pages s = s) \<and>
   (0 \<le> p \<and> ok_empty srv scan d p \<and> ok_empty srv scan d (p + 1) \<and>
    ok_empty srv scan d (p + 2) \<longrightarrow>
      (\<exists>k. k \<le> p + 3 \<and>
           requests (snd (discover_dataset_pages srv scan now d max_pages w)) =
             requests w @ map (page_url d) [0..k - 1])) \<and>
   requests (snd (discover_dataset_pages srv_walk one_link_scan ''t1'' 1 1000 (fresh_world ''t0'')))
     = map (page_url 1) [0, 1, 2, 3, 4] \<and>
   map url (fst (discover_dataset_pages srv_walk one_link_scan ''t1'' 1 1000 (fresh_world ''t0'')))
     = [''https://www.justice.gov/epstein/files/a.pdf'',
        ''https://www.justice.gov/epstein/files/b.pdf'']"
proof -
  have three: "\<exists>k. k \<le> p + 3 \<and>
      requests (snd (discover_dataset_pages srv scan now d max_pages w)) =
        requests w @ map (page_url d) [0..k - 1]"
    if "0 \<le> p" "ok_empty srv scan d p" "ok_empty srv scan d (p + 1)" "ok_empty srv scan d (p + 2)"
  proof -
    have "0 \<le> consecutive_empty_pages (walk_start w)" by (simp add: walk_start_def)
    from pages_loop_requests[OF this, of srv scan now d max_pages]
    obtain k where k: "requests (pworld (pages_loop srv scan now d max_pages (walk_start w))) =
          requests (pworld (walk_start w)) @ map (page_url d) [page (walk_start w)..k - 1]"
        "\<forall>p. ok_empty srv scan d p \<and> ok_empty srv scan d (p + 1) \<and>
             ok_empty srv scan d (p + 2) \<and> page (walk_start w) \<le> p + 3 \<and>
             (p < page (walk_start w) \<longrightarrow>
               page (walk_start w) - p \<le> consecutive_empty_pages (walk_start w))
             \<longrightarrow> k \<le> p + 3"
      by blast
    have "k \<le> p + 3" using k(2) that by (auto simp: walk_start_def)
    then show ?thesis
      using k(1) by (auto simp: requests_discover_dataset_pages walk_start_def)
  qed
  show ?thesis
    using three srv_walk_run
    by (auto simp: page_body_ok_empty pages_loop_stop dest: page_body_ok_links)
qed

theorem page_walk_stops_after_three_empty_witness:
  "ok_links srv_walk one_link_scan 1 (page (walk_start (fresh_world ''t0''))) \<and>
   (\<exists>found. found \<noteq> [] \<and>
      page_body srv_walk one_link_scan ''t1'' 1 (walk_start (fresh_world ''t0'')) =
        Next ((walk_start (fresh_world ''t0''))
               \<lparr>all_files := all_files (walk_start (fresh_world ''t0'')) @ found,
                consecutive_empty_pages := 0,
                pworld := logged 1 (walk_start (fresh_world ''t0''))\<rparr>)) \<and>
   ok_empty srv_walk one_link_scan 1 2 \<and> ok_empty srv_walk one_link_scan 1 3 \<and>
   ok_empty srv_walk one_link_scan 1 4 \<and>
   page_body srv_walk one_link_scan ''t1'' 1 ((walk_start (fresh_world ''t0''))\<lparr>page := 2\<rparr>) =
     Next ((walk_start (fresh_world ''t0''))
            \<lparr>page := 2, consecutive_empty_pages := 1,
             pworld := logged 1 ((walk_start (fresh_world ''t0''))\<lparr>page := 2\<rparr>)\<rparr>) \<and>
   pages_loop srv_walk one_link_scan ''t1'' 1 1000
       ((walk_start (fresh_world ''t0''))\<lparr>consecutive_empty_pages := 3\<rparr>) =
     (walk_start (fresh_world ''t0''))\<lparr>consecutive_empty_pages := 3\<rparr> \<and>
   (\<exists>k. k \<le> 5 \<and>
        requests (snd (discover_dataset_pages srv_walk one_link_scan ''t1'' 1 1000
                        (fresh_world ''t0''))) =
          map (page_url 1) [0..k - 1])"
proof -
  let ?s0 = "walk_start (fresh_world ''t0'')"
  let ?s2 = "?s0\<lparr>page := 2\<rparr>"
  let ?s3 = "?s0\<lparr>consecutive_empty_pages := 3\<rparr>"
  have h: "ok_links srv_walk one_link_scan 1 (page ?s0)"
    "ok_empty srv_walk one_link_scan 1 2" "ok_empty srv_walk one_link_scan 1 3"
    "ok_empty srv_walk one_link_scan 1 4"
    by code_simp+
  have e: "requests (fresh_world ''t0'') = []" by (simp add: fresh_world_def)
  note at_start = page_walk_stops_after_three_empty
         [of srv_walk one_link_scan 1 ?s0 "''t1''" 1000 2 "fresh_world ''t0''"]
  note at_two = page_walk_stops_after_three_empty
         [of srv_walk one_link_scan 1 ?s2 "''t1''" 1000 2 "fresh_world ''t0''"]
  note at_three = page_walk_stops_after_three_empty
         [of srv_walk one_link_scan 1 ?s3 "''t1''" 1000 2 "fresh_world ''t0''"]
  from at_start h(1)
  have a: "\<exists>found. found \<noteq> [] \<and>
      page_body srv_walk one_link_scan ''t1'' 1 ?s0 =
        Next (?s0\<lparr>all_files := all_files ?s0 @ found, consecutive_empty_pages := 0,
                  pworld := logged 1 ?s0\<rparr>)"
    by blast
  have "ok_empty srv_walk one_link_scan 1 (page ?s2)" using h(2) by simp
  with at_two
  have "page_body srv_walk one_link_scan ''t1'' 1 ?s2 =
     Next (?s2\<lparr>consecutive_empty_pages := consecutive_empty_pages ?s2 + 1,
               pworld := logged 1 ?s2\<rparr>)"
    by blast
  then have b: "page_body srv_walk one_link_scan ''t1'' 1 ?s2 =
     Next (?s0\<lparr>page := 2, consecutive_empty_pages := 1, pworld := logged 1 ?s2\<rparr>)"
    by (simp add: walk_start_def)
  have "max_consecutive_empty \<le> consecutive_empty_pages ?s3"
    by (simp add: max_consecutive_empty_def)
  with at_three
  have c: "pages_loop srv_walk one_link_scan ''t1'' 1 1000 ?s3 = ?s3"
    by blast
  from at_start
  have "(0::int) \<le> 2 \<and> ok_empty srv_walk one_link_scan 1 2 \<and>
        ok_empty srv_walk one_link_scan 1 (2 + 1) \<and> ok_empty srv_walk one_link_scan 1 (2 + 2)
        \<longrightarrow> (\<exists>k. k \<le> 2 + 3 \<and>
             requests (snd (discover_dataset_pages srv_walk one_link_scan ''t1'' 1 1000
                             (fresh_world ''t0''))) =
               requests (fresh_world ''t0'') @ map (page_url 1) [0..k - 1])"
    by blast
  with h e have d: "\<exists>k. k \<le> 5 \<and>
        requests (snd (discover_dataset_pages srv_walk one_link_scan ''t1'' 1 1000
                        (fresh_world ''t0''))) =
          map (page_url 1) [0..k - 1]"
    by simp
  from h a b c d show ?thesis by blast
qed

text \<open>
  C4.  A page request that times out stops the walk on the spot: with a first
  page of one file, a second page that times out and a third page of one file,
  the walk requests pages 0 and 1 only, and ends with the page counter at 1 and
  \<^verbatim>\<open>consecutive_empty_pages\<close> still at 0.
\<close>

theorem page_walk_timeout_stops:
  "(let s = pages_loop srv_timeout one_link_scan ''t1'' 1 1000 (walk_start (fresh_world ''t0''))
    in (page s, consecutive_empty_pages s, requests (pworld s))) =
   (1, 0, [page_url 1 0, page_url 1 1])"
  by code_simp

section \<open>Properties of the downloader\<close>

lemma tmp_path_differs: "path_join dir (name @ ''.tmp'') \<noteq> path_join dir name"
proof (cases name)
  case Nil
  then show ?thesis by (simp add: path_join_def)
next
  case (Cons c cs)
  then show ?thesis by (auto simp: path_join_def)
qed

text \<open>
  The fetch path: the record ends \<^verbatim>\<open>SUCCESS\<close> only with a final file that has the
  PDF signature and at least 1024 bytes, and then no \<^verbatim>\<open>.tmp\<close> file; otherwise it
  ends \<^verbatim>\<open>FAILED\<close> and the files are as before, but for the \<^verbatim>\<open>.tmp\<close> file, which
  is gone whenever a body was written.
\<close>

lemma fetch_file_checks:
  "(case fetch_file srv md5 now fm w of
      (res, fm', w') \<Rightarrow>
        status fm' = SUCCESS \<and>
        res = (True, Some (path_join (get_dataset_dir (dataset fm)) (filename fm))) \<and>
        fs w' (path_join (get_dataset_dir (dataset fm)) (filename fm @ ''.tmp'')) = None \<and>
        (\<exists>body. srv (url fm) = reply 200 body \<and>
                fs w' (path_join (get_dataset_dir (dataset fm)) (filename fm)) = Some body \<and>
                take 5 body = ''%PDF-'' \<and> 1024 \<le> length body) \<or>
        status fm' = FAILED \<and> res = (False, None) \<and>
        (fs w' = fs w \<or>
         fs w' = (fs w)(path_join (get_dataset_dir (dataset fm)) (filename fm @ ''.tmp'') := None)))"
  using tmp_path_differs[of "get_dataset_dir (dataset fm)" "filename fm"]
  by (auto simp: fetch_file_def count_failed_def make_request_def verify_pdf_def Let_def reply_def
      split: http_result.splits option.splits if_splits)

text \<open>
  C1.  A pending record whose file already lies in the dataset directory with
  the PDF signature but only eight bytes is set to \<^verbatim>\<open>SUCCESS\<close> by
  \<^verbatim>\<open>download_file\<close>, with no request made and the file left in place: the check
  in place does not look at the size.  The same eight bytes fetched from the
  server are refused by the same function: the record is \<^verbatim>\<open>FAILED\<close> with
  \<^verbatim>\<open>File too small\<close>, and neither the \<^verbatim>\<open>.tmp\<close> file nor the final file exists.
\<close>

theorem download_file_in_place_ignores_size:
  "(let (r, fm, w) = download_file (\<lambda>u. reply 404 []) id ''t1'' stub_record world_with_stub
    in (r, status fm, file_size fm, fs w ''/data/downloads/raw/dataset1/a.pdf'', requests w)) =
   ((False, Some ''/data/downloads/raw/dataset1/a.pdf''), SUCCESS, Some 8,
    Some ''%PDF-1.4'', []) \<and>
   (let (r, fm, w) = download_file srv_stub_body id ''t1'' stub_record (fresh_world ''t0'')
    in (r, status fm, last_error fm, fs w ''/data/downloads/raw/dataset1/a.pdf'',
        fs w ''/data/downloads/raw/dataset1/a.pdf.tmp'', requests w)) =
   ((False, None), FAILED, Some ''File too small'', None, None,
    [''https://www.justice.gov/epstein/files/a.pdf''])"
  by code_simp

section \<open>Interrupt\<close>

text \<open>
  C8.  The interrupt handler of \<^verbatim>\<open>main\<close> leaves the cache file and its backup as
  they were.  After the first probe of a run on a fresh disk (dataset 1
  exists) the cache in memory has \<^verbatim>\<open>max_dataset_found = 1\<close>; an interrupt at that
  point prints that the cache has been saved, there is still no cache file, and
  the next process starts from \<^verbatim>\<open>max_dataset_found = 0\<close>.
\<close>

theorem interrupt_saves_nothing:
  "cache_file (main_interrupted w) = cache_file w \<and>
   backup_cache_file (main_interrupted w) = backup_cache_file w \<and>
   (let w1 = dworld (discover_step srv_three ''t1'' (probe_start 1 (fresh_world ''t0'')));
        w2 = main_interrupted w1
    in (max_dataset_found (cache w1), cache_file w2, last (stdout w2),
        map_option (\<lambda>w. max_dataset_found (cache w)) (start_archiver ''t2'' w2))) =
   (1, None, ''Cache has been saved'', Some 0)"
proof -
  have "(let w1 = dworld (discover_step srv_three ''t1'' (probe_start 1 (fresh_world ''t0'')));
        w2 = main_interrupted w1
    in (max_dataset_found (cache w1), cache_file w2, last (stdout w2),
        map_option (\<lambda>w. max_dataset_found (cache w)) (start_archiver ''t2'' w2))) =
   (1, None, ''Cache has been saved'', Some 0)"
    by code_simp
  then show ?thesis
    by (simp add: main_interrupted_def)
qed

section \<open>Properties of the dataset discoverer\<close>

lemma discover_step_fields:
  "existing_datasets (discover_step srv now s) =
     existing_datasets s @ (if dataset_ok srv (current_dataset s) then [current_dataset s] else [])"
  "consecutive_failures (discover_step srv now s) =
     (if dataset_ok srv (current_dataset s) then 0 else consecutive_failures s + 1)"
  "current_dataset (discover_step srv now s) = current_dataset s + 1"
  by (auto simp: discover_step_def make_request_def dataset_ok_def Let_def
      split: http_result.splits)

lemma discover_loop_stop:
  "\<not> consecutive_failures s < T \<Longrightarrow> discover_loop srv now T s = Some s"
  by (subst discover_loop.simps) simp

lemma discover_loop_go:
  "consecutive_failures s < T \<Longrightarrow>
   discover_loop srv now T s = discover_loop srv now T (discover_step srv now s)"
  by (subst discover_loop.simps) simp

lemma discover_loop_invariant:
  assumes run: "discover_loop srv now T s = Some s'"
    and init: "P s"
    and step: "\<And>x. P x \<Longrightarrow> consecutive_failures x < T \<Longrightarrow> P (discover_step srv now x)"
  shows "P s' \<and> \<not> consecutive_failures s' < T"
proof -
  let ?Q = "\<lambda>a b c x y. a = srv \<and> b = now \<and> c = T \<longrightarrow> P x \<longrightarrow>
              P y \<and> \<not> consecutive_failures y < T"
  have "?Q srv now T s s'"
  proof (rule discover_loop.raw_induct[where P = ?Q, OF _ run])
    fix f a b c x y
    assume IH: "\<And>a' b' c' x' y'. f a' b' c' x' = Some y' \<Longrightarrow> ?Q a' b' c' x' y'"
      and eq: "(if consecutive_failures x < c then f a b c (discover_step a b x) else Some x)
                 = Some y"
    show "?Q a b c x y"
    proof (cases "consecutive_failures x < c")
      case True
      with eq have "f a b c (discover_step a b x) = Some y" by simp
      from IH[OF this] True step show ?thesis by blast
    next
      case False
      with eq show ?thesis by auto
    qed
  qed
  with init show ?thesis by blast
qed

lemma discover_loop_terminates:
  assumes win: "\<forall>d. k \<le> d \<and> d < k + T \<longrightarrow> \<not> dataset_ok srv d"
  shows "current_dataset s \<le> k + T \<Longrightarrow> 0 \<le> consecutive_failures s \<Longrightarrow>
     (k < current_dataset s \<longrightarrow> current_dataset s - k \<le> consecutive_failures s) \<Longrightarrow>
     \<exists>s'. discover_loop srv now T s = Some s' \<and> current_dataset s' \<le> k + T"
proof (induction "nat (k + T - current_dataset s)" arbitrary: s rule: less_induct)
  case less
  show ?case
  proof (cases "consecutive_failures s < T")
    case False
    then show ?thesis using less.prems by (simp add: discover_loop_stop)
  next
    case True
    let ?s = "discover_step srv now s"
    have lt: "current_dataset s < k + T" using True less.prems by auto
    have fail: "k \<le> current_dataset s \<Longrightarrow> \<not> dataset_ok srv (current_dataset s)"
      using win lt by auto
    have "\<exists>s'. discover_loop srv now T ?s = Some s' \<and> current_dataset s' \<le> k + T"
    proof (rule less.hyps)
      show "nat (k + T - current_dataset ?s) < nat (k + T - current_dataset s)"
        using lt by (simp add: discover_step_fields)
      show "current_dataset ?s \<le> k + T" using lt by (simp add: discover_step_fields)
      show "0 \<le> consecutive_failures ?s" using less.prems by (simp add: discover_step_fields)
      show "k < current_dataset ?s \<longrightarrow> current_dataset ?s - k \<le> consecutive_failures ?s"
        using less.prems fail by (auto simp: discover_step_fields)
    qed
    then show ?thesis using True by (simp add: discover_loop_go)
  qed
qed

lemma requests_discover_step:
  "requests (dworld (discover_step srv now s)) =
     requests (dworld s) @ [dataset_url (current_dataset s)]"
  by (auto simp: discover_step_def make_request_def Let_def save_cache_def
      split: http_result.splits)

lemma probed_start: "probed srv start w (probe_start start w)"
  by (auto simp: probed_def probe_start_def)

lemma probed_step:
  assumes "probed srv start w s"
  shows "probed srv start w (discover_step srv now s)"
proof -
  let ?c = "current_dataset s"
  have le: "start \<le> ?c" using assms by (auto simp: probed_def)
  have up: "[start..?c] = [start..?c - 1] @ [?c]"
    using le by (simp add: upto_rec2)
  have run: "\<not> dataset_ok srv d"
    if "\<not> dataset_ok srv ?c" "?c - consecutive_failures s \<le> d" "d < ?c + 1" for d
  proof (cases "d = ?c")
    case True
    with that show ?thesis by simp
  next
    case False
    with that have "d < ?c" by simp
    with that assms show ?thesis by (auto simp: probed_def)
  qed
  show ?thesis
    using assms run unfolding probed_def
    by (auto simp: discover_step_fields requests_discover_step up)
qed

lemma discover_loop_probed:
  assumes "discover_loop srv now T (probe_start start w) = Some s'"
  shows "probed srv start w s' \<and> T \<le> consecutive_failures s'"
  using discover_loop_invariant[OF assms, of "probed srv start w"] probed_start probed_step
  by (simp add: not_less)

lemma strict_sorted_filter_upto: "sorted_wrt (<) (filter P [i..j::int])"
  by (simp add: sorted_wrt_filter strict_sorted_iff)

lemma discover_loop_result:
  assumes run: "discover_loop srv now T (probe_start start w) = Some s'"
  shows "discover_all_datasets srv now start T w =
           Some (filter (dataset_ok srv) [start..current_dataset s' - 1],
                 save_cache now (dworld s')) \<and>
         requests (save_cache now (dworld s')) =
           requests w @ map dataset_url [start..current_dataset s' - 1] \<and>
         start \<le> current_dataset s' - T \<and>
         (\<forall>d. current_dataset s' - T \<le> d \<and> d < current_dataset s' \<longrightarrow> \<not> dataset_ok srv d)"
proof -
  from discover_loop_probed[OF run]
  have p: "probed srv start w s'" and t: "T \<le> consecutive_failures s'" by simp_all
  show ?thesis
    using p t run unfolding probed_def
    by (auto simp: discover_all_datasets_def save_cache_def Let_def)
qed

lemma discover_all_datasets_result:
  assumes "discover_all_datasets srv now start T w = Some (ds, w')"
  shows "\<exists>stop. ds = filter (dataset_ok srv) [start..stop - 1] \<and>
           requests w' = requests w @ map dataset_url [start..stop - 1] \<and>
           start \<le> stop - T \<and>
           (\<forall>d. stop - T \<le> d \<and> d < stop \<longrightarrow> \<not> dataset_ok srv d)"
proof -
  from assms obtain s' where run: "discover_loop srv now T (probe_start start w) = Some s'"
    by (auto simp: discover_all_datasets_def split: option.splits)
  from discover_loop_result[OF run] assms show ?thesis
    by (intro exI[of _ "current_dataset s'"]) auto
qed

lemma discover_all_datasets_window:
  assumes "start \<le> k" "\<forall>d. k \<le> d \<and> d < k + T \<longrightarrow> \<not> dataset_ok srv d"
  shows "\<exists>stop w'. stop \<le> max start (k + T) \<and>
           discover_all_datasets srv now start T w =
             Some (filter (dataset_ok srv) [start..stop - 1], w') \<and>
           requests w' = requests w @ map dataset_url [start..stop - 1] \<and>
           start \<le> stop - T \<and>
           (\<forall>d. stop - T \<le> d \<and> d < stop \<longrightarrow> \<not> dataset_ok srv d)"
proof -
  have "\<exists>s'. discover_loop srv now T (probe_start start w) = Some s' \<and>
          current_dataset s' \<le> max start (k + T)"
  proof (cases "0 < T")
    case True
    have "\<exists>s'. discover_loop srv now T (probe_start start w) = Some s' \<and>
          current_dataset s' \<le> k + T"
      by (rule discover_loop_terminates[OF assms(2)])
         (use assms(1) True in \<open>auto simp: probe_start_def\<close>)
    then show ?thesis by auto
  next
    case False
    then have "discover_loop srv now T (probe_start start w) = Some (probe_start start w)"
      by (intro discover_loop_stop) (simp add: probe_start_def)
    then show ?thesis by (simp add: probe_start_def)
  qed
  then obtain s' where run: "discover_loop srv now T (probe_start start w) = Some s'"
      and le: "current_dataset s' \<le> max start (k + T)" by blast
  from discover_loop_result[OF run] le show ?thesis
    by (intro exI[of _ "current_dataset s'"] exI[of _ "save_cache now (dworld s')"]) auto
qed

lemma discover_all_datasets_returns_iff:
  "(\<exists>r. discover_all_datasets srv now start T w = Some r) =
   (\<exists>k. start \<le> k \<and> (\<forall>d. k \<le> d \<and> d < k + T \<longrightarrow> \<not> dataset_ok srv d))"
proof
  assume "\<exists>r. discover_all_datasets srv now start T w = Some r"
  then obtain ds w' where "discover_all_datasets srv now start T w = Some (ds, w')" by auto
  from discover_all_datasets_result[OF this]
  obtain stop where "start \<le> stop - T" "\<forall>d. stop - T \<le> d \<and> d < stop \<longrightarrow> \<not> dataset_ok srv d"
    by blast
  then show "\<exists>k. start \<le> k \<and> (\<forall>d. k \<le> d \<and> d < k + T \<longrightarrow> \<not> dataset_ok srv d)"
    by (intro exI[of _ "stop - T"]) auto
next
  assume "\<exists>k. start \<le> k \<and> (\<forall>d. k \<le> d \<and> d < k + T \<longrightarrow> \<not> dataset_ok srv d)"
  then obtain k where "start \<le> k" "\<forall>d. k \<le> d \<and> d < k + T \<longrightarrow> \<not> dataset_ok srv d" by blast
  from discover_all_datasets_window[OF this, of now w]
  show "\<exists>r. discover_all_datasets srv now start T w = Some r" by auto
qed

lemma discover_three:
  assumes ok: "dataset_ok srv 1" "dataset_ok srv 2" "dataset_ok srv 3"
    and nf: "\<forall>d. 4 \<le> d \<and> d \<le> 13 \<longrightarrow> \<not> dataset_ok srv d"
  shows "map_option fst (discover_all_datasets srv now 1 10 w) = Some [1, 2, 3]"
proof -
  have "\<forall>d. 4 \<le> d \<and> d < 4 + 10 \<longrightarrow> \<not> dataset_ok srv d" using nf by auto
  from discover_all_datasets_window[of 1 4 10 srv now w, OF _ this]
  obtain stop where stop: "stop \<le> 14"
      "map_option fst (discover_all_datasets srv now 1 10 w) =
         Some (filter (dataset_ok srv) [1..stop - 1])"
      "1 \<le> stop - 10" "\<forall>d. stop - 10 \<le> d \<and> d < stop \<longrightarrow> \<not> dataset_ok srv d"
    by auto
  have "\<not> stop \<le> 13"
  proof
    assume "stop \<le> 13"
    with stop(3,4) have "\<not> dataset_ok srv 3" by auto
    with ok show False by simp
  qed
  with stop(1) have "stop = 14" by simp
  have "[1..13::int] = [1, 2, 3, 4, 5, 6, 7, 8, 9, 10, 11, 12, 13]" by code_simp
  then have "filter (dataset_ok srv) [1..14 - 1] = [1, 2, 3]"
    using ok nf by simp
  with stop(2) \<open>stop = 14\<close> show ?thesis by simp
qed

lemma discover_never_returns:
  assumes "\<forall>d. start \<le> d \<longrightarrow> dataset_ok srv d" "0 < T"
  shows "discover_all_datasets srv now start T w = None"
proof -
  have "\<not> (\<exists>r. discover_all_datasets srv now start T w = Some r)"
    unfolding discover_all_datasets_returns_iff
  proof
    assume "\<exists>k. start \<le> k \<and> (\<forall>d. k \<le> d \<and> d < k + T \<longrightarrow> \<not> dataset_ok srv d)"
    then obtain k where "start \<le> k" "\<forall>d. k \<le> d \<and> d < k + T \<longrightarrow> \<not> dataset_ok srv d" by blast
    with assms(2) have "\<not> dataset_ok srv k" by auto
    with assms(1) \<open>start \<le> k\<close> show False by auto
  qed
  then show ?thesis by (cases "discover_all_datasets srv now start T w") auto
qed


lemma ok_srv_three:
  "dataset_ok srv_three 1 \<and> dataset_ok srv_three 2 \<and> dataset_ok srv_three 3 \<and>
   list_all (\<lambda>d. \<not> dataset_ok srv_three d) [4..13]"
  by code_simp

lemma ok_srv_always: "dataset_ok srv_always d"
  by (simp add: dataset_ok_def srv_always_def reply_def)

lemma list_all_upto: "list_all P [i..j] = (\<forall>d. i \<le> d \<and> d \<le> j \<longrightarrow> P d)"
  by (auto simp: list_all_iff)

text \<open>
  C3 as the code has it.  \<^verbatim>\<open>discover_all_datasets\<close> returns exactly when some \<open>T\<close>
  consecutive ids from \<open>start\<close> on all fail, and then no later than at the end of
  such a run.  What it returns is strictly ascending: it is the ids answered
  with a 200 among the probed ids \<open>start .. stop - 1\<close>, which were requested in
  that order, and the last \<open>T\<close> probes all failed.  One iteration sets the failure
  counter to zero on a 200 and adds one to it on anything else (403, 404,
  another status, a timeout, another exception), and moves to the next id; the
  loop ends once the counter has reached \<open>T\<close>.  When datasets 1, 2, 3 exist and
  4 to 13 do not, discovery from 1 with threshold 10 returns exactly
  \<open>[1, 2, 3]\<close>.
\<close>

theorem discover_all_datasets_ascending:
  "(\<forall>ds w'. discover_all_datasets srv now start T w = Some (ds, w') \<longrightarrow>
      sorted_wrt (<) ds \<and>
      (\<exists>stop. ds = filter (dataset_ok srv) [start..stop - 1] \<and>
              requests w' = requests w @ map dataset_url [start..stop - 1] \<and>
              start \<le> stop - T \<and>
              (\<forall>d. stop - T \<le> d \<and> d < stop \<longrightarrow> \<not> dataset_ok srv d))) \<and>
   consecutive_failures (discover_step srv now s) =
     (if dataset_ok srv (current_dataset s) then 0 else consecutive_failures s + 1) \<and>
   existing_datasets (discover_step srv now s) =
     existing_datasets s @
       (if dataset_ok srv (current_dataset s) then [current_dataset s] else []) \<and>
   current_dataset (discover_step srv now s) = current_dataset s + 1 \<and>
   (T \<le> consecutive_failures s \<longrightarrow> discover_loop srv now T s = Some s) \<and>
   ((\<exists>r. discover_all_datasets srv now start T w = Some r) =
    (\<exists>k. start \<le> k \<and> (\<forall>d. k \<le> d \<and> d < k + T \<longrightarrow> \<not> dataset_ok srv d))) \<and>
   (start \<le> k \<and> (\<forall>d. k \<le> d \<and> d < k + T \<longrightarrow> \<not> dataset_ok srv d) \<longrightarrow>
      (\<exists>stop w'. stop \<le> max start (k + T) \<and>
         discover_all_datasets srv now start T w =
           Some (filter (dataset_ok srv) [start..stop - 1], w') \<and>
         sorted_wrt (<) (filter (dataset_ok srv) [start..stop - 1]) \<and>
         requests w' = requests w @ map dataset_url [start..stop - 1] \<and>
         start \<le> stop - T \<and>
         (\<forall>d. stop - T \<le> d \<and> d < stop \<longrightarrow> \<not> dataset_ok srv d))) \<and>
   (dataset_ok srv 1 \<and> dataset_ok srv 2 \<and> dataset_ok srv 3 \<and>
    (\<forall>d. 4 \<le> d \<and> d \<le> 13 \<longrightarrow> \<not> dataset_ok srv d) \<longrightarrow>
      map_option fst (discover_all_datasets srv now 1 10 w) = Some [1, 2, 3])"
proof -
  have win: "\<exists>stop w'. stop \<le> max start (k + T) \<and>
         discover_all_datasets srv now start T w =
           Some (filter (dataset_ok srv) [start..stop - 1], w') \<and>
         sorted_wrt (<) (filter (dataset_ok srv) [start..stop - 1]) \<and>
         requests w' = requests w @ map dataset_url [start..stop - 1] \<and>
         start \<le> stop - T \<and>
         (\<forall>d. stop - T \<le> d \<and> d < stop \<longrightarrow> \<not> dataset_ok srv d)"
    if "start \<le> k" "\<forall>d. k \<le> d \<and> d < k + T \<longrightarrow> \<not> dataset_ok srv d"
    using discover_all_datasets_window[OF that, of now w] strict_sorted_filter_upto
    by blast
  have post: "sorted_wrt (<) ds \<and>
      (\<exists>stop. ds = filter (dataset_ok srv) [start..stop - 1] \<and>
              requests w' = requests w @ map dataset_url [start..stop - 1] \<and>
              start \<le> stop - T \<and>
              (\<forall>d. stop - T \<le> d \<and> d < stop \<longrightarrow> \<not> dataset_ok srv d))"
    if "discover_all_datasets srv now start T w = Some (ds, w')" for ds w'
  proof -
    from discover_all_datasets_result[OF that]
    obtain stop where stop: "ds = filter (dataset_ok srv) [start..stop - 1]"
        "requests w' = requests w @ map dataset_url [start..stop - 1]"
        "start \<le> stop - T" "\<forall>d. stop - T \<le> d \<and> d < stop \<longrightarrow> \<not> dataset_ok srv d"
      by blast
    have "sorted_wrt (<) ds" unfolding stop(1) by (rule strict_sorted_filter_upto)
    with stop show ?thesis by blast
  qed
  have stop: "T \<le> consecutive_failures s \<longrightarrow> discover_loop srv now T s = Some s"
    by (simp add: discover_loop_stop)
  have three: "dataset_ok srv 1 \<and> dataset_ok srv 2 \<and> dataset_ok srv 3 \<and>
      (\<forall>d. 4 \<le> d \<and> d \<le> 13 \<longrightarrow> \<not> dataset_ok srv d) \<longrightarrow>
      map_option fst (discover_all_datasets srv now 1 10 w) = Some [1, 2, 3]"
    using discover_three by blast
  show ?thesis
    using post stop win three discover_step_fields[of srv now s]
      discover_all_datasets_returns_iff[of srv now start T w]
    by blast
qed

theorem discover_all_datasets_ascending_witness:
  "dataset_ok srv_three 1 \<and> dataset_ok srv_three 2 \<and> dataset_ok srv_three 3 \<and>
   list_all (\<lambda>d. \<not> dataset_ok srv_three d) [4..13] \<and>
   map_option fst (discover_all_datasets srv_three ''t1'' 1 10 (fresh_world ''t0''))
     = Some [1, 2, 3] \<and>
   (\<exists>ds w'. discover_all_datasets srv_three ''t1'' 1 10 (fresh_world ''t0'') = Some (ds, w') \<and>
      sorted_wrt (<) ds) \<and>
   (\<exists>stop w'. stop \<le> 14 \<and>
      discover_all_datasets srv_three ''t1'' 1 10 (fresh_world ''t0'') =
        Some (filter (dataset_ok srv_three) [1..stop - 1], w')) \<and>
   discover_loop srv_three ''t1'' 10 ((probe_start 1 (fresh_world ''t0''))\<lparr>consecutive_failures := 10\<rparr>)
     = Some ((probe_start 1 (fresh_world ''t0''))\<lparr>consecutive_failures := 10\<rparr>)"
proof -
  let ?s = "(probe_start 1 (fresh_world ''t0''))\<lparr>consecutive_failures := 10\<rparr>"
  note main =
    discover_all_datasets_ascending[of srv_three "''t1''" 1 10 "fresh_world ''t0''" ?s 4]
  have h: "dataset_ok srv_three 1" "dataset_ok srv_three 2" "dataset_ok srv_three 3"
    "list_all (\<lambda>d. \<not> dataset_ok srv_three d) [4..13]"
    using ok_srv_three by simp_all
  have nf: "\<forall>d. 4 \<le> d \<and> d \<le> 13 \<longrightarrow> \<not> dataset_ok srv_three d"
    using h(4) by (rule list_all_upto[THEN iffD1])
  from main h nf
  have run: "map_option fst (discover_all_datasets srv_three ''t1'' 1 10 (fresh_world ''t0''))
     = Some [1, 2, 3]"
    by blast
  then obtain w' where
    r: "discover_all_datasets srv_three ''t1'' 1 10 (fresh_world ''t0'') = Some ([1, 2, 3], w')"
    by auto
  with main have "sorted_wrt (<) [1, 2, 3::int]" by blast
  with r have srt: "\<exists>ds w'. discover_all_datasets srv_three ''t1'' 1 10 (fresh_world ''t0'') =
      Some (ds, w') \<and> sorted_wrt (<) ds"
    by blast
  have "(1::int) \<le> 4 \<and> (\<forall>d. 4 \<le> d \<and> d < 4 + 10 \<longrightarrow> \<not> dataset_ok srv_three d)"
    using nf by auto
  with main
  have "\<exists>stop w'. stop \<le> max 1 (4 + 10) \<and>
      discover_all_datasets srv_three ''t1'' 1 10 (fresh_world ''t0'') =
        Some (filter (dataset_ok srv_three) [1..stop - 1], w')"
    by blast
  then have win: "\<exists>stop w'. stop \<le> 14 \<and>
      discover_all_datasets srv_three ''t1'' 1 10 (fresh_world ''t0'') =
        Some (filter (dataset_ok srv_three) [1..stop - 1], w')"
    by simp
  have "10 \<le> consecutive_failures ?s" by simp
  with main have "discover_loop srv_three ''t1'' 10 ?s = Some ?s" by blast
  with h run srt win show ?thesis by blast
qed

text \<open>Against the server that answers every URL with a 200, the discovery
  started at dataset 1 with threshold 10 returns no list: its loop does not
  end.\<close>

theorem discover_all_datasets_counterexample:
  "discover_loop srv_always ''t1'' 10 (probe_start 1 (fresh_world ''t0'')) = None \<and>
   discover_all_datasets srv_always ''t1'' 1 10 (fresh_world ''t0'') = None"
proof -
  have "discover_all_datasets srv_always ''t1'' 1 10 (fresh_world ''t0'') = None"
    by (rule discover_never_returns) (simp_all add: ok_srv_always)
  then show ?thesis
    by (simp add: discover_all_datasets_def split: option.splits)
qed

lemma discover_dataset_pages_request_bound:
  "length (requests (snd (discover_dataset_pages srv scan now d max_pages w)))
     \<le> length (requests w) + nat max_pages"
proof -
  have "0 \<le> consecutive_empty_pages (walk_start w)" by (simp add: walk_start_def)
  from pages_loop_requests[OF this, of srv scan now d max_pages]
  obtain k where k: "requests (pworld (pages_loop srv scan now d max_pages (walk_start w))) =
        requests (pworld (walk_start w)) @ map (page_url d) [page (walk_start w)..k - 1]"
      "k \<le> max_pages \<or> k = page (walk_start w)"
    by blast
  have "length [0..k - 1] \<le> nat max_pages"
    using k(2) by (auto simp: walk_start_def)
  then show ?thesis
    using k(1) by (simp add: requests_discover_dataset_pages walk_start_def)
qed

lemma discover_and_process_all_returns:
  "(\<exists>r. discover_and_process_all srv scan md5 now start dl w = Some r) =
   (\<exists>r. discover_all_datasets srv now start 10 w = Some r)"
  by (auto simp: discover_and_process_all_def split: option.splits)

text \<open>
  C7 as the code has it.  A page walk always returns, after at most
  \<^verbatim>\<open>max_pages\<close> requests.  Dataset discovery has no ceiling: it returns exactly
  when some \<open>T\<close> consecutive dataset ids from \<open>start\<close> on are all answered with
  something other than a 200, and then after probing no further than the end of
  such a run; a whole run returns under the same condition with \<open>T = 10\<close>.
  Against a server that answers every probe with a 200 it never returns.
\<close>

theorem run_returns_iff_failures_reach_threshold:
  "length (requests (snd (discover_dataset_pages srv scan now d max_pages w)))
     \<le> length (requests w) + nat max_pages \<and>
   ((\<exists>r. discover_all_datasets srv now start T w = Some r) =
    (\<exists>k. start \<le> k \<and> (\<forall>i. k \<le> i \<and> i < k + T \<longrightarrow> \<not> dataset_ok srv i))) \<and>
   (start \<le> k \<and> (\<forall>i. k \<le> i \<and> i < k + T \<longrightarrow> \<not> dataset_ok srv i) \<longrightarrow>
      (\<exists>ds w'. discover_all_datasets srv now start T w = Some (ds, w') \<and>
         length (requests w') \<le> length (requests w) + nat (k + T - start))) \<and>
   ((\<exists>r. discover_and_process_all srv scan md5 now start dl w = Some r) =
    (\<exists>k. start \<le> k \<and> (\<forall>i. k \<le> i \<and> i < k + 10 \<longrightarrow> \<not> dataset_ok srv i))) \<and>
   ((\<forall>i. start \<le> i \<longrightarrow> dataset_ok srv i) \<and> 0 < T \<longrightarrow>
      discover_all_datasets srv now start T w = None)"
proof -
  have bound: "\<exists>ds w'. discover_all_datasets srv now start T w = Some (ds, w') \<and>
         length (requests w') \<le> length (requests w) + nat (k + T - start)"
    if "start \<le> k" "\<forall>i. k \<le> i \<and> i < k + T \<longrightarrow> \<not> dataset_ok srv i"
  proof -
    from discover_all_datasets_window[OF that, of now w]
    obtain stop w' where stop: "stop \<le> max start (k + T)"
        "discover_all_datasets srv now start T w =
           Some (filter (dataset_ok srv) [start..stop - 1], w')"
        "requests w' = requests w @ map dataset_url [start..stop - 1]"
      by blast
    have "length [start..stop - 1] \<le> nat (k + T - start)"
      using stop(1) by auto
    with stop(2,3) show ?thesis by simp
  qed
  have never: "discover_all_datasets srv now start T w = None"
    if "\<forall>i. start \<le> i \<longrightarrow> dataset_ok srv i" "0 < T"
    using that by (rule discover_never_returns)
  show ?thesis
    using bound never discover_dataset_pages_request_bound[of srv scan now d max_pages w]
      discover_all_datasets_returns_iff[of srv now start T w]
      discover_all_datasets_returns_iff[of srv now start 10 w]
      discover_and_process_all_returns[of srv scan md5 now start dl w]
    by blast
qed

theorem run_returns_iff_failures_reach_threshold_witness:
  "list_all (\<lambda>i. \<not> dataset_ok srv_three i) [4..13] \<and>
   (\<exists>ds w'. discover_all_datasets srv_three ''t1'' 1 10 (fresh_world ''t0'') = Some (ds, w') \<and>
      length (requests w') \<le> 13) \<and>
   discover_all_datasets srv_always ''t1'' 1 10 (fresh_world ''t0'') = None"
proof -
  note main = run_returns_iff_failures_reach_threshold
  have h: "list_all (\<lambda>i. \<not> dataset_ok srv_three i) [4..13]"
    using ok_srv_three by simp
  then have "\<forall>i. 4 \<le> i \<and> i \<le> 13 \<longrightarrow> \<not> dataset_ok srv_three i"
    by (rule list_all_upto[THEN iffD1])
  then have "(1::int) \<le> 4 \<and> (\<forall>i. 4 \<le> i \<and> i < 4 + 10 \<longrightarrow> \<not> dataset_ok srv_three i)"
    by auto
  with main[of srv_three one_link_scan "''t1''" 1 1000 "fresh_world ''t0''" 1 10 4 id True]
  have "\<exists>ds w'. discover_all_datasets srv_three ''t1'' 1 10 (fresh_world ''t0'') = Some (ds, w') \<and>
         length (requests w') \<le> length (requests (fresh_world ''t0'')) + nat (4 + 10 - 1)"
    by blast
  then have a: "\<exists>ds w'. discover_all_datasets srv_three ''t1'' 1 10 (fresh_world ''t0'') =
      Some (ds, w') \<and> length (requests w') \<le> 13"
    by (simp add: fresh_world_def)
  have "(\<forall>i. (1::int) \<le> i \<longrightarrow> dataset_ok srv_always i) \<and> (0::int) < 10"
    by (simp add: ok_srv_always)
  with main[of srv_always one_link_scan "''t1''" 1 1000 "fresh_world ''t0''" 1 10 4 id True]
  have b: "discover_all_datasets srv_always ''t1'' 1 10 (fresh_world ''t0'') = None"
    by blast
  from h a b show ?thesis by blast
qed

text \<open>Against the server that answers every URL with a 200, a run started at
  dataset 1 does not return.\<close>

theorem run_never_returns_counterexample:
  "discover_and_process_all srv_always one_link_scan id ''t1'' 1 True (fresh_world ''t0'') = None"
proof -
  have "discover_all_datasets srv_always ''t1'' 1 10 (fresh_world ''t0'') = None"
    by (rule discover_never_returns) (simp_all add: ok_srv_always)
  then show ?thesis by (simp add: discover_and_process_all_def)
qed

section \<open>Counters and records\<close>

lemma update_absent: "k \<notin> fst ` set al \<Longrightarrow> AList.update k v al = al @ [(k, v)]"
  by (induction al) auto

lemma update_present_keys:
  "map_of al k = Some v \<Longrightarrow> map fst (AList.update k v' al) = map fst al"
  by (induction al) (auto split: if_splits)

lemma update_present_count:
  "map_of al k = Some v \<Longrightarrow>
   int (count_list (map (\<lambda>p. g (snd p)) (AList.update k v' al)) x) + (if g v = x then 1 else 0) =
   int (count_list (map (\<lambda>p. g (snd p)) al) x) + (if g v' = x then 1 else 0)"
  by (induction al) (auto split: if_splits)

lemma update_present_same:
  "map_of al k = Some v \<Longrightarrow> g v' = g v \<Longrightarrow>
   map (\<lambda>p. g (snd p)) (AList.update k v' al) = map (\<lambda>p. g (snd p)) al"
  by (induction al) (auto split: if_splits)

lemma consistent_fields:
  "files c' = files c \<Longrightarrow> total_discovered c' = total_discovered c \<Longrightarrow>
   total_failed c' = total_failed c \<Longrightarrow> total_downloaded c' = total_downloaded c \<Longrightarrow>
   total_skipped c' = total_skipped c \<Longrightarrow> consistent c' = consistent c"
  by (simp add: consistent_def count_status_def statuses_def count_in_place_def
      count_fetched_def count_mark_def marks_def)

lemma consistent_empty:
  "files c = [] \<Longrightarrow> total_discovered c = 0 \<Longrightarrow> total_downloaded c = 0 \<Longrightarrow>
   total_failed c = 0 \<Longrightarrow> total_skipped c = 0 \<Longrightarrow> consistent c"
  by (simp add: consistent_def count_status_def statuses_def count_in_place_def
      count_fetched_def count_mark_def marks_def)

lemma consistent_new: "consistent (new_CacheState now)"
  by (rule consistent_empty) (simp_all add: new_CacheState_def)

text \<open>What is read back from a document that \<^verbatim>\<open>_save_cache\<close> wrote.\<close>

lemma ap_Returns: "ap (Returns g) (Returns a) = Returns (g a)"
  by (simp add: ap_def)

lemma as_json:
  "as_str (JStr s) = Returns s" "as_int (JInt i) = Returns i"
  "as_opt_str (json_opt_str x) = Returns x"
  by (simp_all add: as_str_def as_int_def as_opt_str_def json_opt_str_def split: option.splits)

lemma set_of_json_ints:
  "fold (\<lambda>x acc. ap (ap (Returns insert) (as_int x)) acc) (map JInt xs) (Returns A) =
   Returns (set xs \<union> A)"
  by (induction xs arbitrary: A) (simp_all add: ap_Returns as_json)

lemma read_cache_json_dump:
  "files c = [] \<Longrightarrow>
   read_cache (json_dump c) =
     Returns (c\<lparr>datasets_scanned := set (sorted_list_of_set (datasets_scanned c))\<rparr>)"
  by (simp add: read_cache_def json_load_def json_dump_def CacheState_from_dict_def py_dict_def
      dict_get_def set_of_json_def set_of_json_ints is_hashable_def list_all_iff ap_Returns
      as_json)

lemma read_cache_unparseable: "files c \<noteq> [] \<Longrightarrow> read_cache (json_dump c) = Raises JSONDecodeError"
  by (simp add: read_cache_def json_load_def json_dump_def)

lemma disk_consistent_json_dump: "consistent c \<Longrightarrow> disk_consistent (Some (json_dump c))"
proof (cases "files c = []")
  case True
  assume "consistent c"
  then show ?thesis
    using consistent_fields[of "c\<lparr>datasets_scanned := set (sorted_list_of_set (datasets_scanned c))\<rparr>" c]
    by (simp add: disk_consistent_def read_cache_json_dump[OF True])
next
  case False
  then show ?thesis by (simp add: disk_consistent_def read_cache_unparseable)
qed

lemma world_consistent_save:
  assumes "world_consistent w"
  shows "world_consistent (save_cache now w)"
proof -
  let ?c = "(cache w)\<lparr>last_updated := Some now\<rparr>"
  have c: "consistent ?c"
    using assms consistent_fields[of ?c "cache w"] by (simp add: world_consistent_def)
  from disk_consistent_json_dump[OF c] c assms show ?thesis
    by (auto simp: world_consistent_def save_cache_def Let_def split: option.splits)
qed

lemma world_consistent_restart:
  "world_consistent w \<Longrightarrow> start_archiver now w = Some w' \<Longrightarrow> world_consistent w'"
  by (auto simp: world_consistent_def start_archiver_def load_cache_def
      disk_consistent_def consistent_new split: option.splits outcome.splits)

lemma world_consistent_cleanup:
  "world_consistent w \<Longrightarrow> world_consistent (cleanup_all now w)"
  unfolding cleanup_all_def
  by (rule world_consistent_save) (simp add: world_consistent_def consistent_empty)

lemma world_consistent_probe:
  "world_consistent (dworld s) \<Longrightarrow> world_consistent (dworld (discover_step srv now s))"
  by (auto simp: discover_step_def make_request_def Let_def split: http_result.splits
      intro!: world_consistent_save)
     (auto simp: world_consistent_def consistent_def count_status_def statuses_def
        count_in_place_def count_fetched_def count_mark_def marks_def)

lemma set_unique_by_url: "set (unique_by_url seen xs) \<subseteq> set xs"
  by (induction xs arbitrary: seen) auto

lemma distinct_unique_by_url:
  "distinct (map url (unique_by_url seen xs)) \<and> url ` set (unique_by_url seen xs) \<inter> seen = {}"
proof (induction xs arbitrary: seen)
  case Nil
  show ?case by simp
next
  case (Cons f rest)
  from Cons[of "insert (url f) seen"] Cons[of seen] show ?case by auto
qed

lemma page_body_Next_files:
  "page_body srv scan now d s = Next s' \<Longrightarrow>
   \<exists>found. all_files s' = all_files s @ found \<and> (\<forall>f\<in>set found. mark f = (PENDING, True))"
proof -
  assume a: "page_body srv scan now d s = Next s'"
  have pend: "\<forall>f\<in>set (unique_by_url {} (extract_file_links scan now html pg d)).
      mark f = (PENDING, True)"
    for html pg
    using set_unique_by_url[of "{}" "extract_file_links scan now html pg d"]
    by (auto simp: extract_file_links_def new_FileMetadata_def mark_def)
  from a show ?thesis
    by (auto simp: page_body_def make_request_def Let_def pend
        split: http_result.splits if_splits)
qed

lemma pages_loop_world:
  "\<exists>rq. pworld (pages_loop srv scan now d max_pages s) = (pworld s)\<lparr>requests := rq\<rparr>"
proof (induction srv scan now d max_pages s rule: pages_loop.induct)
  case (1 srv scan now d max_pages s)
  let ?go = "page s < max_pages \<and> consecutive_empty_pages s < max_consecutive_empty"
  show ?case
  proof (cases ?go)
    case False
    then have "pworld (pages_loop srv scan now d max_pages s) =
        (pworld s)\<lparr>requests := requests (pworld s)\<rparr>"
      by (simp add: pages_loop_stop)
    then show ?thesis by (rule exI)
  next
    case True
    show ?thesis
    proof (cases "page_body srv scan now d s")
      case (Break s')
      then have "s' = s\<lparr>pworld := logged d s\<rparr>" by (rule page_body_Break)
      moreover have "pages_loop srv scan now d max_pages s = s'"
        using True Break by (subst pages_loop.simps) simp
      ultimately have "pworld (pages_loop srv scan now d max_pages s) =
          (pworld s)\<lparr>requests := requests (pworld s) @ [page_url d (page s)]\<rparr>"
        by (simp add: logged_def)
      then show ?thesis by (rule exI)
    next
      case (Next s')
      note nx = page_body_Next[OF Next]
      let ?s2 = "s'\<lparr>page := page s + 1\<rparr>"
      have run: "pages_loop srv scan now d max_pages s = pages_loop srv scan now d max_pages ?s2"
        using True Next by (subst pages_loop.simps) simp
      from "1.IH"[OF True Next] obtain rq
        where "pworld (pages_loop srv scan now d max_pages ?s2) = (pworld ?s2)\<lparr>requests := rq\<rparr>"
        by blast
      then have "pworld (pages_loop srv scan now d max_pages s) = (pworld s)\<lparr>requests := rq\<rparr>"
        using nx unfolding run by (simp add: logged_def)
      then show ?thesis by (rule exI)
    qed
  qed
qed

lemma pages_loop_pending:
  "\<forall>f\<in>set (all_files s). mark f = (PENDING, True) \<Longrightarrow>
   \<forall>f\<in>set (all_files (pages_loop srv scan now d max_pages s)). mark f = (PENDING, True)"
proof (induction srv scan now d max_pages s rule: pages_loop.induct)
  case (1 srv scan now d max_pages s)
  let ?go = "page s < max_pages \<and> consecutive_empty_pages s < max_consecutive_empty"
  show ?case
  proof (cases ?go)
    case False
    then show ?thesis using "1.prems" by (simp add: pages_loop_stop)
  next
    case True
    show ?thesis
    proof (cases "page_body srv scan now d s")
      case (Break s')
      then have "s' = s\<lparr>pworld := logged d s\<rparr>" by (rule page_body_Break)
      moreover have "pages_loop srv scan now d max_pages s = s'"
        using True Break by (subst pages_loop.simps) simp
      ultimately show ?thesis using "1.prems" by simp
    next
      case (Next s')
      let ?s2 = "s'\<lparr>page := page s + 1\<rparr>"
      have run: "pages_loop srv scan now d max_pages s = pages_loop srv scan now d max_pages ?s2"
        using True Next by (subst pages_loop.simps) simp
      from page_body_Next_files[OF Next] "1.prems"
      have "\<forall>f\<in>set (all_files ?s2). mark f = (PENDING, True)" by auto
      from "1.IH"[OF True Next this] show ?thesis unfolding run .
    qed
  qed
qed

lemma filter_new_effect:
  "filter_new now xs c = (nf, c') \<Longrightarrow>
   nf = filter (\<lambda>f. url f \<notin> set (map fst (files c))) xs \<and>
   map fst (files c') = map fst (files c) \<and> statuses c' = statuses c \<and>
   marks c' = marks c \<and>
   total_discovered c' = total_discovered c \<and> total_failed c' = total_failed c \<and>
   total_downloaded c' = total_downloaded c \<and> total_skipped c' = total_skipped c"
proof (induction xs arbitrary: c nf c')
  case Nil
  then show ?case by simp
next
  case (Cons f rest)
  show ?case
  proof (cases "map_of (files c) (url f)")
    case None
    then have notin: "url f \<notin> set (map fst (files c))"
      by (simp add: map_of_eq_None_iff)
    from Cons.prems None obtain nf' where nf': "filter_new now rest c = (nf', c')" "nf = f # nf'"
      by (auto split: prod.splits)
    from Cons.IH[OF nf'(1)] nf'(2) notin show ?thesis by simp
  next
    case (Some existing)
    let ?c2 = "c\<lparr>files := AList.update (url f) (existing\<lparr>last_checked := Some now\<rparr>) (files c)\<rparr>"
    from Cons.prems Some have run: "filter_new now rest ?c2 = (nf, c')" by simp
    have keys: "map fst (files ?c2) = map fst (files c)"
      using Some by (simp add: update_present_keys)
    have sts: "statuses ?c2 = statuses c"
      using update_present_same[OF Some, of status "existing\<lparr>last_checked := Some now\<rparr>"]
      by (simp add: statuses_def)
    have mks: "marks ?c2 = marks c"
      using update_present_same[OF Some, of mark "existing\<lparr>last_checked := Some now\<rparr>"]
      by (simp add: marks_def mark_def)
    have keyset: "set (map fst (files ?c2)) = set (map fst (files c))"
      using keys by simp
    have known: "url f \<in> set (map fst (files c))"
      using Some by (metis map_of_eq_None_iff option.distinct(1) set_map)
    from Cons.IH[OF run]
    have "nf = filter (\<lambda>f. url f \<notin> set (map fst (files ?c2))) rest"
      and rest: "map fst (files c') = map fst (files ?c2)" "statuses c' = statuses ?c2"
        "marks c' = marks ?c2"
        "total_discovered c' = total_discovered ?c2" "total_failed c' = total_failed ?c2"
        "total_downloaded c' = total_downloaded ?c2" "total_skipped c' = total_skipped ?c2"
      by blast+
    then have "nf = filter (\<lambda>f. url f \<notin> set (map fst (files c))) (f # rest)"
      unfolding keyset using known by simp
    with rest keys sts mks show ?thesis by simp
  qed
qed

lemma add_new_effect:
  "distinct (map url nf) \<Longrightarrow> set (map url nf) \<inter> set (map fst (files c)) = {} \<Longrightarrow>
   files (add_new nf c) = files c @ map (\<lambda>f. (url f, f)) nf \<and>
   total_discovered (add_new nf c) = total_discovered c + int (length nf) \<and>
   total_failed (add_new nf c) = total_failed c \<and>
   total_downloaded (add_new nf c) = total_downloaded c \<and>
   total_skipped (add_new nf c) = total_skipped c"
proof (induction nf arbitrary: c)
  case Nil
  then show ?case by simp
next
  case (Cons f rest)
  let ?c2 = "c\<lparr>files := AList.update (url f) f (files c),
               total_discovered := total_discovered c + 1\<rparr>"
  have "url f \<notin> fst ` set (files c)" using Cons.prems by auto
  then have fl: "files ?c2 = files c @ [(url f, f)]" by (simp add: update_absent)
  have "distinct (map url rest)" "set (map url rest) \<inter> set (map fst (files ?c2)) = {}"
    using Cons.prems by (auto simp: fl)
  from Cons.IH[OF this] fl show ?case by simp
qed

text \<open>What a page walk does to the cache and to the disk.\<close>

lemma discover_dataset_pages_effect:
  assumes "discover_dataset_pages srv scan now d max_pages w = (nf, w')"
  shows "map fst (files (cache w')) = map fst (files (cache w)) @ map url nf \<and>
         statuses (cache w') = statuses (cache w) @ map status nf \<and>
         marks (cache w') = marks (cache w) @ map mark nf \<and>
         (\<forall>f\<in>set nf. mark f = (PENDING, True)) \<and>
         (\<forall>f\<in>set nf. status f = PENDING) \<and> distinct (map url nf) \<and>
         set (map url nf) \<inter> set (map fst (files (cache w))) = {} \<and>
         total_discovered (cache w') = total_discovered (cache w) + int (length nf) \<and>
         total_failed (cache w') = total_failed (cache w) \<and>
         total_downloaded (cache w') = total_downloaded (cache w) \<and>
         total_skipped (cache w') = total_skipped (cache w) \<and>
         (\<forall>f\<in>set nf. map_of (files (cache w')) (url f) = Some f) \<and>
         fs w' = fs w \<and>
         cache_file w' = Some (json_dump (cache w')) \<and>
         backup_cache_file w' =
           (case cache_file w of None \<Rightarrow> backup_cache_file w | Some x \<Rightarrow> Some x)"
proof -
  let ?s = "pages_loop srv scan now d max_pages (walk_start w)"
  let ?u = "unique_by_url {} (all_files ?s)"
  obtain rq where pw: "pworld ?s = w\<lparr>requests := rq\<rparr>"
    using pages_loop_world[of srv scan now d max_pages "walk_start w"]
    by (auto simp: walk_start_def)
  obtain nf0 c1 where fn: "filter_new now ?u (cache w) = (nf0, c1)"
    by (cases "filter_new now ?u (cache w)") auto
  from assms fn pw have nf: "nf = nf0"
    and w': "w' = save_cache now
        (w\<lparr>requests := rq,
           cache := (add_new nf0 c1)\<lparr>datasets_scanned := insert d (datasets_scanned (add_new nf0 c1))\<rparr>\<rparr>)"
    by (auto simp: discover_dataset_pages_def Let_def)
  note fe = filter_new_effect[OF fn]
  have c1: "map fst (files c1) = map fst (files (cache w))" "statuses c1 = statuses (cache w)"
    "marks c1 = marks (cache w)"
    "total_discovered c1 = total_discovered (cache w)" "total_failed c1 = total_failed (cache w)"
    "total_downloaded c1 = total_downloaded (cache w)" "total_skipped c1 = total_skipped (cache w)"
    using fe by blast+
  have pend_all: "\<forall>f\<in>set (all_files ?s). mark f = (PENDING, True)"
    by (rule pages_loop_pending) (simp add: walk_start_def)
  then have pend_u: "\<forall>f\<in>set ?u. mark f = (PENDING, True)"
    using set_unique_by_url[of "{}" "all_files ?s"] by auto
  have pendm: "\<forall>f\<in>set nf0. mark f = (PENDING, True)"
    using pend_u fe by auto
  then have pend: "\<forall>f\<in>set nf0. status f = PENDING"
    by (simp add: mark_def)
  have dist_u: "distinct (map url ?u)"
    using distinct_unique_by_url[of "{}" "all_files ?s"] by simp
  have dist: "distinct (map url nf0)"
    using dist_u fe by (simp add: distinct_map_filter)
  have disj: "set (map url nf0) \<inter> set (map fst (files (cache w))) = {}"
    using fe by auto
  then have disj1: "set (map url nf0) \<inter> set (map fst (files c1)) = {}"
    using c1 by simp
  note ae = add_new_effect[OF dist disj1]
  have st: "statuses (add_new nf0 c1) = statuses (cache w) @ map status nf0"
    using ae c1(2) by (simp add: statuses_def comp_def)
  have mk: "marks (add_new nf0 c1) = marks (cache w) @ map mark nf0"
    using ae c1(3) by (simp add: marks_def comp_def)
  have ks: "map fst (files (add_new nf0 c1)) = map fst (files (cache w)) @ map url nf0"
    using ae c1(1) by (simp add: comp_def)
  have cache': "files (cache w') = files (add_new nf0 c1)"
    "total_discovered (cache w') = total_discovered (add_new nf0 c1)"
    "total_failed (cache w') = total_failed (add_new nf0 c1)"
    "total_downloaded (cache w') = total_downloaded (add_new nf0 c1)"
    "total_skipped (cache w') = total_skipped (add_new nf0 c1)"
    "fs w' = fs w" "cache_file w' = Some (json_dump (cache w'))"
    "backup_cache_file w' =
           (case cache_file w of None \<Rightarrow> backup_cache_file w | Some x \<Rightarrow> Some x)"
    unfolding w' by (simp_all add: save_cache_def Let_def split: option.splits)
  have "statuses (cache w') = statuses (add_new nf0 c1)"
    using cache'(1) by (simp add: statuses_def)
  moreover have "marks (cache w') = marks (add_new nf0 c1)"
    using cache'(1) by (simp add: marks_def)
  moreover have "map_of (files (cache w')) (url f) = Some f" if "f \<in> set nf0" for f
  proof -
    have "url f \<notin> fst ` set (files c1)" using disj1 that by auto
    then have "map_of (files c1) (url f) = None" by (simp add: map_of_eq_None_iff)
    moreover have "map_of (map (\<lambda>f. (url f, f)) nf0) (url f) = Some f"
      using dist that by (intro map_of_is_SomeI) (auto simp: comp_def)
    ultimately show ?thesis
      using ae cache'(1) by (simp add: map_add_Some_iff)
  qed
  ultimately show ?thesis
    using st mk ks cache' ae c1 pend pendm dist disj unfolding nf by simp
qed

lemma count_list_pending:
  "\<forall>f\<in>set nf. status f = PENDING \<Longrightarrow> st \<noteq> PENDING \<Longrightarrow> count_list (map status nf) st = 0"
  by (induction nf) auto

lemma count_list_new:
  "\<forall>f\<in>set nf. mark f = (PENDING, True) \<Longrightarrow> m \<noteq> (PENDING, True) \<Longrightarrow>
   count_list (map mark nf) m = 0"
  by (induction nf) auto

lemma world_consistent_walk:
  assumes "world_consistent w"
  shows "world_consistent (snd (discover_dataset_pages srv scan now d max_pages w))"
proof -
  obtain nf w' where run: "discover_dataset_pages srv scan now d max_pages w = (nf, w')"
    by (cases "discover_dataset_pages srv scan now d max_pages w") auto
  note e = discover_dataset_pages_effect[OF run]
  have len: "length (files (cache w')) = length (files (cache w)) + length nf"
    using e by (metis length_append length_map)
  have cnt: "count_status st (cache w') = count_status st (cache w)" if "st \<noteq> PENDING" for st
    using e that by (simp add: count_status_def count_list_pending)
  have cntm: "count_mark m (cache w') = count_mark m (cache w)" if "m \<noteq> (PENDING, True)" for m
    using e that by (simp add: count_mark_def count_list_new)
  have c: "consistent (cache w')"
    using assms e len cnt[of FAILED] cnt[of SUCCESS] cnt[of SKIPPED]
      cntm[of "(SUCCESS, True)"] cntm[of "(SUCCESS, False)"] cntm[of "(PENDING, False)"]
    by (auto simp: world_consistent_def consistent_def count_in_place_def count_fetched_def)
  have "disk_consistent (cache_file w')"
    using e c by (simp add: disk_consistent_json_dump)
  moreover have "disk_consistent (backup_cache_file w')"
    using e assms by (auto simp: world_consistent_def disk_consistent_def split: option.splits)
  ultimately show ?thesis using c run by (simp add: world_consistent_def)
qed

text \<open>The fetch path: one more attempt, and either a success counted in
  \<^verbatim>\<open>total_downloaded\<close> or a failure counted in \<^verbatim>\<open>total_failed\<close>.\<close>

lemma fetch_file_outcome:
  "fetch_file srv md5 now fm w = (res, fm', w1) \<Longrightarrow>
   files (cache w1) = files (cache w) \<and>
   total_discovered (cache w1) = total_discovered (cache w) \<and>
   cache_file w1 = cache_file w \<and> backup_cache_file w1 = backup_cache_file w \<and>
   download_attempts fm' = download_attempts fm + 1 \<and>
   (status fm' = SUCCESS \<and>
    total_downloaded (cache w1) = total_downloaded (cache w) + 1 \<and>
    total_skipped (cache w1) = total_skipped (cache w) \<and>
    total_failed (cache w1) = total_failed (cache w) \<or>
    status fm' = FAILED \<and>
    total_failed (cache w1) = total_failed (cache w) + 1 \<and>
    total_downloaded (cache w1) = total_downloaded (cache w) \<and>
    total_skipped (cache w1) = total_skipped (cache w))"
  by (auto simp: fetch_file_def count_failed_def make_request_def Let_def
      split: http_result.splits option.splits if_splits)

lemma download_file_in_place:
  "status fm = PENDING \<Longrightarrow> in_place w fm \<Longrightarrow>
   download_file srv md5 now fm w = (res, fm', w1) \<Longrightarrow>
   files (cache w1) = files (cache w) \<and>
   total_discovered (cache w1) = total_discovered (cache w) \<and>
   cache_file w1 = cache_file w \<and> backup_cache_file w1 = backup_cache_file w \<and>
   requests w1 = requests w \<and> fs w1 = fs w \<and>
   status fm' = SUCCESS \<and> download_attempts fm' = download_attempts fm \<and>
   total_skipped (cache w1) = total_skipped (cache w) + 1 \<and>
   total_downloaded (cache w1) = total_downloaded (cache w) \<and>
   total_failed (cache w1) = total_failed (cache w)"
  by (auto simp: download_file_def in_place_def verify_pdf_def Let_def split: option.splits)

lemma download_file_fetched:
  "status fm = PENDING \<Longrightarrow> \<not> in_place w fm \<Longrightarrow>
   download_file srv md5 now fm w = fetch_file srv md5 now fm w"
  by (auto simp: download_file_def in_place_def Let_def split: option.splits)

lemma download_file_outcome:
  "status fm = PENDING \<Longrightarrow> download_file srv md5 now fm w = (res, fm', w1) \<Longrightarrow>
   download_outcome fm fm' w w1"
proof (cases "in_place w fm")
  case True
  assume "status fm = PENDING" "download_file srv md5 now fm w = (res, fm', w1)"
  from download_file_in_place[OF this(1) True this(2)] True show ?thesis
    by (simp add: download_outcome_def)
next
  case False
  assume "status fm = PENDING" "download_file srv md5 now fm w = (res, fm', w1)"
  with download_file_fetched[OF this(1) False, of srv md5 now]
  have "fetch_file srv md5 now fm w = (res, fm', w1)" by simp
  from fetch_file_outcome[OF this] False show ?thesis
    by (simp add: download_outcome_def)
qed

lemma world_consistent_download:
  assumes wc: "world_consistent w"
    and fm: "map_of (files (cache w)) u = Some fm" "status fm = PENDING"
  shows "world_consistent (snd (download_cached srv md5 now u w))"
proof -
  obtain res fm' w1 where run: "download_file srv md5 now fm w = (res, fm', w1)"
    by (cases "download_file srv md5 now fm w") auto
  let ?c = "(cache w1)\<lparr>files := AList.update u fm' (files (cache w1))\<rparr>"
  have w': "snd (download_cached srv md5 now u w) = w1\<lparr>cache := ?c\<rparr>"
    using fm(1) run by (simp add: download_cached_def)
  from download_file_outcome[OF fm(2) run]
  have o: "download_outcome fm fm' w w1" .
  then have same: "files (cache w1) = files (cache w)"
    by (simp add: download_outcome_def)
  have "mark fm \<in> set (marks (cache w))"
    using fm(1) by (force simp: marks_def dest: map_of_SomeD)
  moreover have "(PENDING, False) \<notin> set (marks (cache w))"
    using wc by (simp add: world_consistent_def consistent_def count_mark_def count_list_0_iff)
  ultimately have att: "download_attempts fm = 0"
    using fm(2) by (cases "download_attempts fm = 0") (auto simp: mark_def)
  have cntm: "count_mark m ?c + (if (PENDING, True) = m then 1 else 0) =
             count_mark m (cache w) + (if mark fm' = m then 1 else 0)" for m
    using update_present_count[OF fm(1), of mark fm' m] fm(2) att same
    by (simp add: count_mark_def marks_def mark_def)
  have keys: "map fst (files ?c) = map fst (files (cache w))"
    using fm(1) same by (simp add: update_present_keys)
  then have len: "length (files ?c) = length (files (cache w))"
    by (metis length_map)
  have cnt: "count_status st ?c + (if PENDING = st then 1 else 0) =
             count_status st (cache w) + (if status fm' = st then 1 else 0)" for st
    using update_present_count[OF fm(1), of status fm' st] fm(2) same
    by (simp add: count_status_def statuses_def)
  have "consistent ?c"
    using wc o keys len att cnt[of FAILED] cnt[of SUCCESS] cnt[of SKIPPED]
      cntm[of "(SUCCESS, True)"] cntm[of "(SUCCESS, False)"] cntm[of "(PENDING, False)"]
    by (auto simp: world_consistent_def consistent_def download_outcome_def mark_def
        count_in_place_def count_fetched_def split: if_splits)
  then show ?thesis
    using wc o unfolding w' by (simp add: world_consistent_def download_outcome_def)
qed

text \<open>Every reachable world is consistent.\<close>

lemma reachable_consistent: "reachable w \<Longrightarrow> world_consistent w"
proof (induction rule: reachable.induct)
  case (start now)
  show ?case
    by (simp add: world_consistent_def fresh_world_def consistent_new disk_consistent_def)
next
  case (restart w now w')
  then show ?case by (simp add: world_consistent_restart)
next
  case (probe s srv now)
  then show ?case by (simp add: world_consistent_probe)
next
  case (walk w srv scan now d max_pages)
  then show ?case by (simp add: world_consistent_walk)
next
  case (download w u fm srv md5 now)
  then show ?case by (simp add: world_consistent_download)
next
  case (save w now)
  then show ?case by (simp add: world_consistent_save)
next
  case (cleanup w now)
  then show ?case by (simp add: world_consistent_cleanup)
next
  case (payload w f)
  then show ?case by (simp add: world_consistent_def)
qed

text \<open>The operations of the run controller stay within the reachable worlds.\<close>

lemma reachable_discover_all_datasets:
  assumes "reachable w" "discover_all_datasets srv now start T w = Some (ds, w')"
  shows "reachable w'"
proof -
  from assms(2) obtain s' where run: "discover_loop srv now T (probe_start start w) = Some s'"
      and w': "w' = save_cache now (dworld s')"
    by (auto simp: discover_all_datasets_def split: option.splits)
  have "reachable (dworld (probe_start start w))"
    using assms(1) by (simp add: probe_start_def)
  from discover_loop_invariant[OF run, of "\<lambda>s. reachable (dworld s)", OF this]
  have "reachable (dworld s')" by (simp add: reachable.probe)
  then show ?thesis unfolding w' by (rule reachable.save)
qed

lemma download_cached_other:
  assumes "map_of (files (cache w)) u = Some fm" "status fm = PENDING" "k \<noteq> u"
  shows "map_of (files (cache (snd (download_cached srv md5 now u w)))) k =
         map_of (files (cache w)) k"
proof -
  obtain res fm' w1 where run: "download_file srv md5 now fm w = (res, fm', w1)"
    by (cases "download_file srv md5 now fm w") auto
  from download_file_outcome[OF assms(2) run]
  have "files (cache w1) = files (cache w)" by (simp add: download_outcome_def)
  then show ?thesis
    using assms(1,3) run by (simp add: download_cached_def update_conv')
qed

lemma files_save_cache: "files (cache (save_cache now w)) = files (cache w)"
  by (simp add: save_cache_def Let_def)

lemma reachable_download_each:
  "reachable w \<Longrightarrow> distinct (map url fls) \<Longrightarrow>
   \<forall>f\<in>set fls. \<exists>fm. map_of (files (cache w)) (url f) = Some fm \<and> status fm = PENDING \<Longrightarrow>
   reachable (snd (download_each srv md5 now i n fls r w))"
proof (induction fls arbitrary: i r w)
  case Nil
  then show ?case by simp
next
  case (Cons f rest)
  from Cons.prems(3) obtain fm where fm: "map_of (files (cache w)) (url f) = Some fm"
      "status fm = PENDING"
    by auto
  let ?w1 = "snd (download_cached srv md5 now (url f) w)"
  let ?w2 = "if i mod 10 = 0 \<or> i = n then save_cache now ?w1 else ?w1"
  have r1: "reachable ?w1" using Cons.prems(1) fm by (rule reachable.download)
  then have r2: "reachable ?w2" by (simp add: reachable.save)
  have keep: "\<forall>g\<in>set rest. \<exists>gm. map_of (files (cache ?w2)) (url g) = Some gm \<and> status gm = PENDING"
  proof
    fix g assume g: "g \<in> set rest"
    then have "url g \<in> url ` set rest" by (rule imageI)
    moreover have "url f \<notin> url ` set rest" using Cons.prems(2) by simp
    ultimately have "url g \<noteq> url f" by metis
    from download_cached_other[OF fm this, of srv md5 now] Cons.prems(3) g
    show "\<exists>gm. map_of (files (cache ?w2)) (url g) = Some gm \<and> status gm = PENDING"
      by (auto simp: files_save_cache)
  qed
  have d: "distinct (map url rest)" using Cons.prems(2) by simp
  have "\<exists>r1. download_each srv md5 now i n (f # rest) r w =
          download_each srv md5 now (i + 1) n rest r1 ?w2"
    by (cases "download_cached srv md5 now (url f) w") (auto simp: Let_def)
  then obtain r1 where "download_each srv md5 now i n (f # rest) r w =
          download_each srv md5 now (i + 1) n rest r1 ?w2"
    by blast
  with Cons.IH[OF r2 d keep, of "i + 1" r1] show ?case by simp
qed

lemma reachable_process_dataset:
  assumes "reachable w"
  shows "reachable (snd (process_dataset srv scan md5 now d dl w))"
proof -
  obtain nf w1 where run: "discover_dataset_pages srv scan now d 1000 w = (nf, w1)"
    by (cases "discover_dataset_pages srv scan now d 1000 w") auto
  have r1: "reachable w1"
    using reachable.walk[OF assms, of srv scan now d 1000] run by simp
  note e = discover_dataset_pages_effect[OF run]
  let ?r0 = "\<lparr>r_dataset = d, total_files = int (length nf), downloaded = 0,
               skipped = 0, failed = 0, total_size = 0\<rparr>"
  obtain r2 w2 where de: "download_each srv md5 now 1 (int (length nf)) nf ?r0 w1 = (r2, w2)"
    by (cases "download_each srv md5 now 1 (int (length nf)) nf ?r0 w1") auto
  have "reachable (snd (download_each srv md5 now 1 (int (length nf)) nf ?r0 w1))"
    by (rule reachable_download_each[OF r1]) (use e in auto)
  then have r2: "reachable w2" using de by simp
  show ?thesis
    using run r1 r2 de
    by (simp add: process_dataset_def Let_def reachable.save)
qed

lemma reachable_process_each:
  "reachable w \<Longrightarrow> reachable (snd (process_each srv scan md5 now dl ds rs w))"
proof (induction ds arbitrary: rs w)
  case Nil
  then show ?case by simp
next
  case (Cons d ds)
  from reachable_process_dataset[OF Cons.prems, of srv scan md5 now d dl]
  show ?case by (auto simp: Let_def split: prod.splits intro: Cons.IH)
qed

lemma reachable_run:
  assumes "reachable w" "discover_and_process_all srv scan md5 now start dl w = Some (rs, w')"
  shows "reachable w'"
proof -
  from assms(2) obtain ds w1 where d: "discover_all_datasets srv now start 10 w = Some (ds, w1)"
      and p: "process_each srv scan md5 now dl ds [] w1 = (rs, w')"
    by (auto simp: discover_and_process_all_def split: option.splits)
  from reachable_discover_all_datasets[OF assms(1) d]
  have "reachable w1" .
  from reachable_process_each[OF this, of srv scan md5 now dl ds "[]"] p
  show ?thesis by simp
qed

lemma reachable_two_links_world: "reachable two_links_world"
  unfolding two_links_world_def
  by (intro reachable_process_dataset reachable.start)

lemma two_links_world_records:
  "map fst (files (cache two_links_world)) =
     [''https://www.justice.gov/epstein/files/a.pdf'',
      ''https://www.justice.gov/epstein/files/a.pdf?v=2''] \<and>
   statuses (cache two_links_world) = [SUCCESS, SUCCESS] \<and>
   marks (cache two_links_world) = [(SUCCESS, False), (SUCCESS, True)] \<and>
   total_downloaded (cache two_links_world) = 1 \<and>
   total_skipped (cache two_links_world) = 1 \<and>
   total_failed (cache two_links_world) = 0 \<and>
   requests two_links_world =
     [page_url 1 0, page_url 1 1, ''https://www.justice.gov/epstein/files/a.pdf'']"
  by code_simp

lemma two_links_world_counts:
  "count_status SUCCESS (cache two_links_world) = 2 \<and>
   count_status SKIPPED (cache two_links_world) = 0 \<and>
   count_status FAILED (cache two_links_world) = 0 \<and>
   count_fetched (cache two_links_world) = 1 \<and>
   count_in_place (cache two_links_world) = 1"
  using two_links_world_records
  by (simp add: count_status_def count_fetched_def count_in_place_def count_mark_def)

lemma stub_downloads:
  "status stub_record = PENDING \<and> download_attempts stub_record = 0 \<and>
   in_place world_with_stub stub_record \<and> \<not> in_place (fresh_world ''t0'') stub_record \<and>
   total_downloaded (cache world_with_stub) = 0 \<and> total_skipped (cache world_with_stub) = 0 \<and>
   total_failed (cache world_with_stub) = 0 \<and>
   total_downloaded (cache (fresh_world ''t0'')) = 0 \<and>
   total_skipped (cache (fresh_world ''t0'')) = 0 \<and>
   total_failed (cache (fresh_world ''t0'')) = 0 \<and>
   status (fst (snd (download_file srv_pdf id ''t1'' stub_record (fresh_world ''t0'')))) = SUCCESS \<and>
   status (fst (snd (download_file srv_stub_body id ''t1'' stub_record (fresh_world ''t0'')))) = FAILED"
  by code_simp

text \<open>
  C5 as the code has it.  In every reachable world \<^verbatim>\<open>total_failed\<close> is the number
  of \<^verbatim>\<open>FAILED\<close> records, \<^verbatim>\<open>total_downloaded\<close> is the number of \<^verbatim>\<open>SUCCESS\<close> records
  with a download attempt (the files fetched), \<^verbatim>\<open>total_skipped\<close> is the number of
  \<^verbatim>\<open>SUCCESS\<close> records without one (the files found in place), so the two
  together are the number of \<^verbatim>\<open>SUCCESS\<close> records; no record is \<^verbatim>\<open>SKIPPED\<close> and no
  \<^verbatim>\<open>PENDING\<close> record has an attempt; and a whole run leads from a reachable world
  to a reachable world.  The download of a pending record whose file is in
  place makes no request and no attempt, ends \<^verbatim>\<open>SUCCESS\<close> and adds one to
  \<^verbatim>\<open>total_skipped\<close> only; the download of any other pending record is one more
  attempt and ends either \<^verbatim>\<open>SUCCESS\<close> with one more in \<^verbatim>\<open>total_downloaded\<close> only
  or \<^verbatim>\<open>FAILED\<close> with one more in \<^verbatim>\<open>total_failed\<close> only.
\<close>

theorem counters_follow_statuses:
  "(reachable w \<longrightarrow>
      total_failed (cache w) = count_status FAILED (cache w) \<and>
      total_downloaded (cache w) = count_fetched (cache w) \<and>
      total_skipped (cache w) = count_in_place (cache w) \<and>
      total_downloaded (cache w) + total_skipped (cache w) = count_status SUCCESS (cache w) \<and>
      count_status SKIPPED (cache w) = 0 \<and>
      count_mark (PENDING, False) (cache w) = 0 \<and>
      (\<forall>rs w'. discover_and_process_all srv scan md5 now start dl w = Some (rs, w')
         \<longrightarrow> reachable w')) \<and>
   (status fm = PENDING \<and> in_place w0 fm \<and>
    download_file srv md5 now fm w0 = (res, fm', w1) \<longrightarrow>
      status fm' = SUCCESS \<and> download_attempts fm' = download_attempts fm \<and>
      requests w1 = requests w0 \<and>
      total_skipped (cache w1) = total_skipped (cache w0) + 1 \<and>
      total_downloaded (cache w1) = total_downloaded (cache w0) \<and>
      total_failed (cache w1) = total_failed (cache w0)) \<and>
   (status fm = PENDING \<and> \<not> in_place w0 fm \<and>
    download_file srv md5 now fm w0 = (res, fm', w1) \<longrightarrow>
      download_attempts fm' = download_attempts fm + 1 \<and>
      (status fm' = SUCCESS \<and>
       total_downloaded (cache w1) = total_downloaded (cache w0) + 1 \<and>
       total_skipped (cache w1) = total_skipped (cache w0) \<and>
       total_failed (cache w1) = total_failed (cache w0) \<or>
       status fm' = FAILED \<and>
       total_failed (cache w1) = total_failed (cache w0) + 1 \<and>
       total_downloaded (cache w1) = total_downloaded (cache w0) \<and>
       total_skipped (cache w1) = total_skipped (cache w0)))"
proof -
  have inv: "total_failed (cache w) = count_status FAILED (cache w) \<and>
      total_downloaded (cache w) = count_fetched (cache w) \<and>
      total_skipped (cache w) = count_in_place (cache w) \<and>
      total_downloaded (cache w) + total_skipped (cache w) = count_status SUCCESS (cache w) \<and>
      count_status SKIPPED (cache w) = 0 \<and>
      count_mark (PENDING, False) (cache w) = 0 \<and>
      (\<forall>rs w'. discover_and_process_all srv scan md5 now start dl w = Some (rs, w')
         \<longrightarrow> reachable w')"
    if r: "reachable w"
  proof -
    from r have "consistent (cache w)"
      using reachable_consistent by (simp add: world_consistent_def)
    then show ?thesis
      using r reachable_run by (auto simp: consistent_def)
  qed
  have here: "status fm' = SUCCESS \<and> download_attempts fm' = download_attempts fm \<and>
      requests w1 = requests w0 \<and>
      total_skipped (cache w1) = total_skipped (cache w0) + 1 \<and>
      total_downloaded (cache w1) = total_downloaded (cache w0) \<and>
      total_failed (cache w1) = total_failed (cache w0)"
    if "status fm = PENDING" "in_place w0 fm" "download_file srv md5 now fm w0 = (res, fm', w1)"
    using download_file_in_place[OF that] by simp
  have fetched: "download_attempts fm' = download_attempts fm + 1 \<and>
      (status fm' = SUCCESS \<and>
       total_downloaded (cache w1) = total_downloaded (cache w0) + 1 \<and>
       total_skipped (cache w1) = total_skipped (cache w0) \<and>
       total_failed (cache w1) = total_failed (cache w0) \<or>
       status fm' = FAILED \<and>
       total_failed (cache w1) = total_failed (cache w0) + 1 \<and>
       total_downloaded (cache w1) = total_downloaded (cache w0) \<and>
       total_skipped (cache w1) = total_skipped (cache w0))"
    if "status fm = PENDING" "\<not> in_place w0 fm" "download_file srv md5 now fm w0 = (res, fm', w1)"
  proof -
    from that download_file_fetched[OF that(1,2), of srv md5 now]
    have "fetch_file srv md5 now fm w0 = (res, fm', w1)" by simp
    from fetch_file_outcome[OF this] show ?thesis by blast
  qed
  from inv here fetched show ?thesis by blast
qed

theorem counters_follow_statuses_witness:
  "reachable two_links_world \<and>
   marks (cache two_links_world) = [(SUCCESS, False), (SUCCESS, True)] \<and>
   total_downloaded (cache two_links_world) = 1 \<and>
   count_fetched (cache two_links_world) = 1 \<and>
   total_skipped (cache two_links_world) = 1 \<and>
   count_in_place (cache two_links_world) = 1 \<and>
   total_failed (cache two_links_world) = count_status FAILED (cache two_links_world) \<and>
   count_status SUCCESS (cache two_links_world) = 2 \<and>
   status stub_record = PENDING \<and>
   in_place world_with_stub stub_record \<and>
   (let (r, fm, w) = download_file srv_pdf id ''t1'' stub_record world_with_stub
    in (status fm, download_attempts fm, requests w, total_skipped (cache w),
        total_downloaded (cache w), total_failed (cache w))) =
     (SUCCESS, 0, [], 1, 0, 0) \<and>
   \<not> in_place (fresh_world ''t0'') stub_record \<and>
   (let (r, fm, w) = download_file srv_pdf id ''t1'' stub_record (fresh_world ''t0'')
    in (status fm, download_attempts fm, total_skipped (cache w),
        total_downloaded (cache w), total_failed (cache w))) =
     (SUCCESS, 1, 0, 1, 0) \<and>
   (let (r, fm, w) = download_file srv_stub_body id ''t1'' stub_record (fresh_world ''t0'')
    in (status fm, download_attempts fm, total_skipped (cache w),
        total_downloaded (cache w), total_failed (cache w))) =
     (FAILED, 1, 0, 0, 1)"
proof -
  note s = stub_downloads
  note c = two_links_world_counts
  from counters_follow_statuses[of two_links_world] reachable_two_links_world
  have inv: "total_failed (cache two_links_world) = count_status FAILED (cache two_links_world)"
    "total_downloaded (cache two_links_world) = count_fetched (cache two_links_world)"
    "total_skipped (cache two_links_world) = count_in_place (cache two_links_world)"
    "total_downloaded (cache two_links_world) + total_skipped (cache two_links_world) =
       count_status SUCCESS (cache two_links_world)"
    by blast+
  obtain r1 f1 w1 where d1: "download_file srv_pdf id ''t1'' stub_record world_with_stub = (r1, f1, w1)"
    by (cases "download_file srv_pdf id ''t1'' stub_record world_with_stub") auto
  from counters_follow_statuses[of _ srv_pdf _ id "''t1''" _ _ stub_record world_with_stub
      r1 f1 w1] s d1
  have a: "status f1 = SUCCESS \<and> download_attempts f1 = download_attempts stub_record \<and>
      requests w1 = requests world_with_stub \<and>
      total_skipped (cache w1) = total_skipped (cache world_with_stub) + 1 \<and>
      total_downloaded (cache w1) = total_downloaded (cache world_with_stub) \<and>
      total_failed (cache w1) = total_failed (cache world_with_stub)"
    by blast
  have rq: "requests world_with_stub = []"
    by (simp add: world_with_stub_def fresh_world_def)
  obtain r2 f2 w2 where
    d2: "download_file srv_pdf id ''t1'' stub_record (fresh_world ''t0'') = (r2, f2, w2)"
    by (cases "download_file srv_pdf id ''t1'' stub_record (fresh_world ''t0'')") auto
  from counters_follow_statuses[of _ srv_pdf _ id "''t1''" _ _ stub_record "fresh_world ''t0''"
      r2 f2 w2] s d2
  have b: "download_attempts f2 = download_attempts stub_record + 1 \<and>
      (status f2 = SUCCESS \<and>
       total_downloaded (cache w2) = total_downloaded (cache (fresh_world ''t0'')) + 1 \<and>
       total_skipped (cache w2) = total_skipped (cache (fresh_world ''t0'')) \<and>
       total_failed (cache w2) = total_failed (cache (fresh_world ''t0'')) \<or>
       status f2 = FAILED \<and>
       total_failed (cache w2) = total_failed (cache (fresh_world ''t0'')) + 1 \<and>
       total_downloaded (cache w2) = total_downloaded (cache (fresh_world ''t0'')) \<and>
       total_skipped (cache w2) = total_skipped (cache (fresh_world ''t0'')))"
    by blast
  have s2: "status f2 = SUCCESS" using s d2 by simp
  obtain r3 f3 w3 where
    d3: "download_file srv_stub_body id ''t1'' stub_record (fresh_world ''t0'') = (r3, f3, w3)"
    by (cases "download_file srv_stub_body id ''t1'' stub_record (fresh_world ''t0'')") auto
  from counters_follow_statuses[of _ srv_stub_body _ id "''t1''" _ _ stub_record
      "fresh_world ''t0''" r3 f3 w3] s d3
  have e: "download_attempts f3 = download_attempts stub_record + 1 \<and>
      (status f3 = SUCCESS \<and>
       total_downloaded (cache w3) = total_downloaded (cache (fresh_world ''t0'')) + 1 \<and>
       total_skipped (cache w3) = total_skipped (cache (fresh_world ''t0'')) \<and>
       total_failed (cache w3) = total_failed (cache (fresh_world ''t0'')) \<or>
       status f3 = FAILED \<and>
       total_failed (cache w3) = total_failed (cache (fresh_world ''t0'')) + 1 \<and>
       total_downloaded (cache w3) = total_downloaded (cache (fresh_world ''t0'')) \<and>
       total_skipped (cache w3) = total_skipped (cache (fresh_world ''t0'')))"
    by blast
  have s3: "status f3 = FAILED" using s d3 by simp
  show ?thesis
    using reachable_two_links_world two_links_world_records inv c s a rq b s2 e s3 d1 d2 d3
    by simp
qed

text \<open>
  A world reached from the empty disk by one page walk and the downloads of its
  two new records, with no file put there by anyone else: both records are
  \<^verbatim>\<open>SUCCESS\<close> and \<^verbatim>\<open>total_downloaded\<close> is 1; no record is \<^verbatim>\<open>SKIPPED\<close> and
  \<^verbatim>\<open>total_skipped\<close> is 1.
\<close>

theorem total_downloaded_counterexample:
  "reachable two_links_world \<and>
   count_status SUCCESS (cache two_links_world) = 2 \<and>
   total_downloaded (cache two_links_world) = 1 \<and>
   count_status SKIPPED (cache two_links_world) = 0 \<and>
   total_skipped (cache two_links_world) = 1"
  using reachable_two_links_world two_links_world_records two_links_world_counts by simp

lemma download_file_frame:
  "download_file srv md5 now fm w = (res, fm', w1) \<Longrightarrow>
   files (cache w1) = files (cache w) \<and> total_discovered (cache w1) = total_discovered (cache w)"
  by (auto simp: download_file_def fetch_file_def count_failed_def make_request_def Let_def
      split: http_result.splits option.splits if_splits)

lemma download_cached_frame:
  "map fst (files (cache (snd (download_cached srv md5 now u w)))) = map fst (files (cache w)) \<and>
   total_discovered (cache (snd (download_cached srv md5 now u w))) = total_discovered (cache w)"
proof (cases "map_of (files (cache w)) u")
  case None
  then show ?thesis by (simp add: download_cached_def)
next
  case (Some fm)
  obtain res fm' w1 where run: "download_file srv md5 now fm w = (res, fm', w1)"
    by (cases "download_file srv md5 now fm w") auto
  from download_file_frame[OF run] Some run show ?thesis
    by (simp add: download_cached_def update_present_keys)
qed

lemma card_keys: "distinct (map fst al) \<Longrightarrow> card (dom (map_of al)) = length al"
  by (simp add: dom_map_of_conv_image_fst distinct_card flip: set_map)

lemma reachable_walked_world: "reachable walked_world"
  unfolding walked_world_def by (intro reachable.walk reachable.start)

lemma walked_world_files:
  "total_discovered (cache walked_world) = 2 \<and>
   map fst (files (cache walked_world)) =
     [''https://www.justice.gov/epstein/files/a.pdf'',
      ''https://www.justice.gov/epstein/files/b.pdf'']"
  by code_simp

text \<open>
  C10.  In every reachable world \<^verbatim>\<open>total_discovered\<close> is the number of entries of
  \<^verbatim>\<open>files\<close>.  A page walk appends the new records to \<^verbatim>\<open>files\<close>, each under a key
  that was not there, and adds their number to \<^verbatim>\<open>total_discovered\<close>; a download
  changes neither the keys of \<^verbatim>\<open>files\<close> nor \<^verbatim>\<open>total_discovered\<close>; the cleanup
  empties \<^verbatim>\<open>files\<close> and sets \<^verbatim>\<open>total_discovered\<close> to 0.
\<close>

theorem total_discovered_counts_files:
  "(reachable w \<longrightarrow>
      total_discovered (cache w) = int (card (dom (map_of (files (cache w))))) \<and>
      total_discovered (cache w) = int (length (files (cache w))) \<and>
      distinct (map fst (files (cache w)))) \<and>
   (discover_dataset_pages srv scan now d max_pages w0 = (nf, w1) \<longrightarrow>
      total_discovered (cache w1) = total_discovered (cache w0) + int (length nf) \<and>
      map fst (files (cache w1)) = map fst (files (cache w0)) @ map url nf \<and>
      distinct (map url nf) \<and>
      set (map url nf) \<inter> set (map fst (files (cache w0))) = {}) \<and>
   map fst (files (cache (snd (download_cached srv md5 now u w0)))) = map fst (files (cache w0)) \<and>
   total_discovered (cache (snd (download_cached srv md5 now u w0))) = total_discovered (cache w0) \<and>
   files (cache (cleanup_all now w0)) = [] \<and>
   total_discovered (cache (cleanup_all now w0)) = 0"
proof -
  have inv: "total_discovered (cache w) = int (card (dom (map_of (files (cache w))))) \<and>
      total_discovered (cache w) = int (length (files (cache w))) \<and>
      distinct (map fst (files (cache w)))" if "reachable w"
  proof -
    from that have "consistent (cache w)"
      using reachable_consistent by (simp add: world_consistent_def)
    then show ?thesis by (simp add: consistent_def card_keys)
  qed
  have walk: "total_discovered (cache w1) = total_discovered (cache w0) + int (length nf) \<and>
      map fst (files (cache w1)) = map fst (files (cache w0)) @ map url nf \<and>
      distinct (map url nf) \<and>
      set (map url nf) \<inter> set (map fst (files (cache w0))) = {}"
    if "discover_dataset_pages srv scan now d max_pages w0 = (nf, w1)"
    using discover_dataset_pages_effect[OF that] by blast
  have clean: "files (cache (cleanup_all now w0)) = [] \<and>
      total_discovered (cache (cleanup_all now w0)) = 0"
    by (simp add: cleanup_all_def save_cache_def Let_def)
  show ?thesis
    using inv walk clean download_cached_frame[of srv md5 now u w0] by blast
qed

theorem total_discovered_counts_files_witness:
  "reachable walked_world \<and>
   total_discovered (cache walked_world) = 2 \<and>
   int (card (dom (map_of (files (cache walked_world))))) = 2 \<and>
   map fst (files (cache walked_world)) =
     [''https://www.justice.gov/epstein/files/a.pdf'',
      ''https://www.justice.gov/epstein/files/b.pdf''] \<and>
   total_discovered (cache walked_world) =
     total_discovered (cache (fresh_world ''t0'')) +
     int (length (fst (discover_dataset_pages srv_walk one_link_scan ''t1'' 1 1000
                         (fresh_world ''t0''))))"
proof -
  let ?nf = "fst (discover_dataset_pages srv_walk one_link_scan ''t1'' 1 1000 (fresh_world ''t0''))"
  have run: "discover_dataset_pages srv_walk one_link_scan ''t1'' 1 1000
      (fresh_world ''t0'') = (?nf, walked_world)"
    by (simp add: walked_world_def)
  note inst = total_discovered_counts_files[of walked_world srv_walk one_link_scan "''t1''" 1 1000
         "fresh_world ''t0''" ?nf walked_world id "''u''"]
  from inst reachable_walked_world
  have a: "total_discovered (cache walked_world) =
          int (card (dom (map_of (files (cache walked_world)))))"
    by blast
  from inst run
  have b: "total_discovered (cache walked_world) =
     total_discovered (cache (fresh_world ''t0'')) + int (length ?nf)"
    by blast
  from a b reachable_walked_world walked_world_files show ?thesis by simp
qed

section \<open>Two runs in a row\<close>

text \<open>
  C6.  The first run finds one record and downloads it; its save leaves a cache
  file that cannot be read back, so the second process starts from an empty
  cache and its page walk returns the same record as new again.  It does not
  fetch the file a second time (the file is found in place).  A second call on
  the cache in memory returns no new record.
\<close>

theorem second_run_rediscovers_records:
  "new_records first_run = Some [1] \<and>
   map (\<lambda>p. status (snd p)) (files (cache (world_after first_run))) = [SUCCESS] \<and>
   cache_file (world_after first_run) = Some Unparseable \<and>
   map_option (\<lambda>w. files (cache w)) (start_archiver ''t2'' (world_after first_run)) = Some [] \<and>
   new_records second_run = Some [1] \<and>
   length (filter (\<lambda>u. u = ''https://www.justice.gov/epstein/files/a.pdf'')
             (requests (world_after second_run))) = 1 \<and>
   new_records same_process_second_run = Some [0]"
  by code_simp

end
